theory Spec2Isabelle
  imports Main "HOL-Library.Multiset" "HOL-Library.Char_ord" "HOL-Library.List_Lexorder"
begin

section \<open>The tube solver (src/tube.py): data model\<close>

text \<open>
  A colour is a Python int, a tube is a Python list of colours, bottom first (index 0 is
  the bottom, the last element is the top). The class \<open>TubeSolver\<close> becomes a record with
  the fields its constructor sets. Indices handed to \<open>can_pour\<close> and \<open>pour\<close> are Python
  ints: a negative index counts from the end and an index out of range raises
  \<open>IndexError\<close>, which is a value of the result type here.
\<close>

type_synonym color = int
type_synonym tube = "color list"

datatype error = IndexError

record solver =
  original_tubes :: "tube list"
  tubes :: "tube list"
  tube_capacity :: int
  moves :: "(int \<times> int) list"
  visited_states :: "string set"
  total_colors :: int
  empty_tubes_count :: int

subsection \<open>Python list indexing and slicing\<close>

text \<open>\<open>xs[i]\<close>: the position read, or \<open>None\<close> where Python raises \<open>IndexError\<close>.\<close>

definition py_index :: "'a list \<Rightarrow> int \<Rightarrow> nat option" where
  "py_index xs i =
     (let n = int (length xs) in
      if 0 \<le> i \<and> i < n then Some (nat i)
      else if - n \<le> i \<and> i < 0 then Some (nat (n + i))
      else None)"

text \<open>A slice bound is clamped into \<open>0..len\<close>, a negative one after adding \<open>len\<close>.\<close>

definition py_bound :: "'a list \<Rightarrow> int \<Rightarrow> nat" where
  "py_bound xs i =
     (let n = int (length xs) in
      if i < 0 then nat (max (n + i) 0) else nat (min i n))"

text \<open>\<open>xs[i:]\<close> and \<open>xs[:j]\<close>.\<close>

definition py_slice_from :: "'a list \<Rightarrow> int \<Rightarrow> 'a list" where
  "py_slice_from xs i = drop (py_bound xs i) xs"

definition py_slice_to :: "'a list \<Rightarrow> int \<Rightarrow> 'a list" where
  "py_slice_to xs j = take (py_bound xs j) xs"

subsection \<open>The constructor\<close>

text \<open>\<open>_count_total_colors\<close>: the union of the tubes' colour sets, then its size.\<close>

definition count_total_colors :: "tube list \<Rightarrow> int" where
  "count_total_colors orig = int (card (fold (\<lambda>tube all_colors. all_colors \<union> set tube) orig {}))"

text \<open>\<open>_count_empty_tubes\<close>.\<close>

definition count_empty_tubes :: "tube list \<Rightarrow> int" where
  "count_empty_tubes orig = int (length (filter (\<lambda>tube. length tube = 0) orig))"

definition TubeSolver :: "tube list \<Rightarrow> solver" where
  "TubeSolver ts =
     \<lparr> original_tubes = ts, tubes = ts, tube_capacity = 4, moves = [],
       visited_states = {}, total_colors = count_total_colors ts,
       empty_tubes_count = count_empty_tubes ts \<rparr>"

subsection \<open>can_pour and pour\<close>

definition can_pour :: "solver \<Rightarrow> int \<Rightarrow> int \<Rightarrow> error + bool" where
  "can_pour s from_index to_index =
     (if from_index = to_index then Inr False
      else (case py_index (tubes s) from_index of
        None \<Rightarrow> Inl IndexError
      | Some f \<Rightarrow>
          (if length (tubes s ! f) = 0 then Inr False
           else (case py_index (tubes s) to_index of
             None \<Rightarrow> Inl IndexError
           | Some t \<Rightarrow>
               (if int (length (tubes s ! t)) \<ge> tube_capacity s then Inr False
                else
                  (let from_color = last (tubes s ! f);
                       to_color = (if length (tubes s ! t) > 0
                                   then Some (last (tubes s ! t)) else None)
                   in Inr (to_color = None \<or> to_color = Some from_color)))))))"

text \<open>
  The counting loop of \<open>pour\<close>: it walks the source tube from the top (so over the
  reversed list) and stops at the first unit of another colour.
\<close>

fun run_count :: "color \<Rightarrow> color list \<Rightarrow> int \<Rightarrow> int" where
  "run_count from_color [] cnt = cnt"
| "run_count from_color (c # cs) cnt =
     (if c = from_color then run_count from_color cs (cnt + 1) else cnt)"

text \<open>
  \<open>pour\<close> returns the flag and the state after the call. Where \<open>can_pour\<close> raises,
  \<open>pour\<close> raises before it has assigned anything. The two assignments are made in
  the source's order: the source tube is replaced by its lower slice, then the tube at
  \<open>to_index\<close> of the list so updated is extended.
\<close>

definition pour :: "solver \<Rightarrow> int \<Rightarrow> int \<Rightarrow> error + (bool \<times> solver)" where
  "pour s from_index to_index =
     (case can_pour s from_index to_index of
        Inl e \<Rightarrow> Inl e
      | Inr ok \<Rightarrow>
          if \<not> ok then Inr (False, s)
          else (case (py_index (tubes s) from_index, py_index (tubes s) to_index) of
            (Some f, Some t) \<Rightarrow>
              (let src = tubes s ! f;
                  from_color = last src;
                  cnt = run_count from_color (rev src) 0;
                  space = tube_capacity s - int (length (tubes s ! t));
                  pour_count = min cnt space;
                  poured = py_slice_from src (- pour_count);
                  tubes1 = (tubes s)[f := py_slice_to src (- pour_count)];
                  tubes2 = tubes1[t := tubes1 ! t @ poured]
              in Inr (True, s\<lparr>tubes := tubes2,
                                moves := moves s @ [(from_index, to_index)]\<rparr>))
          | _ \<Rightarrow> Inl IndexError))"

subsection \<open>get_state_hash\<close>

text \<open>
  \<open>str\<close> of a Python int: the decimal digits, most significant first, after a minus
  sign when the number is negative.
\<close>

fun str_nat :: "nat \<Rightarrow> string" where
  "str_nat n =
     (if n < 10 then [''0123456789'' ! n]
      else str_nat (n div 10) @ [''0123456789'' ! (n mod 10)])"

declare str_nat.simps [simp del]

definition str_int :: "int \<Rightarrow> string" where
  "str_int i = (if i < 0 then CHR ''-'' # str_nat (nat (- i)) else str_nat (nat i))"

text \<open>\<open>sep.join(parts)\<close>.\<close>

fun join :: "string \<Rightarrow> string list \<Rightarrow> string" where
  "join sep [] = []"
| "join sep [x] = x"
| "join sep (x # y # ys) = x @ sep @ join sep (y # ys)"

text \<open>
  \<open>sorted\<close> on Python strings orders them lexicographically by code point, a proper
  prefix first: the order of \<open>char list\<close> here. The strings built hold digits, minus
  signs and commas only.
\<close>

definition get_state_hash :: "solver \<Rightarrow> string" where
  "get_state_hash s =
     join ''|'' (sort (map (\<lambda>tube. join '','' (map str_int tube)) (tubes s)))"

subsection \<open>is_solved\<close>

text \<open>
  The loop over the tubes with its two counters; each \<open>return False\<close> of the source is
  a branch that ends the recursion. \<open>tube[0]\<close> is read only from a tube that is not
  empty.
\<close>

fun is_solved_loop :: "solver \<Rightarrow> tube list \<Rightarrow> int \<Rightarrow> int \<Rightarrow> bool" where
  "is_solved_loop s [] completed empty' =
     (completed = total_colors s \<and> empty' = empty_tubes_count s)"
| "is_solved_loop s (tube # rest) completed empty' =
     (if length tube = 0 then is_solved_loop s rest completed (empty' + 1)
      else if int (length tube) \<noteq> tube_capacity s then False
      else if list_ex (\<lambda>c. c \<noteq> hd tube) (tl tube) then False
      else is_solved_loop s rest (completed + 1) empty')"

definition is_solved :: "solver \<Rightarrow> bool" where
  "is_solved s = is_solved_loop s (tubes s) 0 0"

subsection \<open>Index filters\<close>

text \<open>\<open>range(n)\<close> and \<open>enumerate(xs)\<close>, with Python ints as indices.\<close>

definition range_py :: "nat \<Rightarrow> int list" where
  "range_py n = map int [0..<n]"

definition enumerate_py :: "'a list \<Rightarrow> (int \<times> 'a) list" where
  "enumerate_py xs = zip (range_py (length xs)) xs"

definition get_empty_tubes :: "solver \<Rightarrow> int list" where
  "get_empty_tubes s =
     map fst (filter (\<lambda>(i, tube). length tube = 0) (enumerate_py (tubes s)))"

definition get_tubes_with_space :: "solver \<Rightarrow> int list" where
  "get_tubes_with_space s =
     map fst (filter (\<lambda>(i, tube). int (length tube) < tube_capacity s) (enumerate_py (tubes s)))"

subsection \<open>analyze_colors and find_target_color\<close>

text \<open>One entry of a \<open>positions\<close> list (a dict with these four keys in the source).\<close>

record pos_entry =
  tube_index :: int
  position :: int
  depth :: int
  is_top :: bool

text \<open>The value stored per colour in \<open>color_analysis\<close>.\<close>

record color_data =
  total_count :: int
  positions :: "pos_entry list"
  is_collectible :: bool
  max_depth :: int

text \<open>
  The two nested \<open>enumerate\<close> loops that collect the occurrences of one colour, in
  tube order and bottom to top within a tube. \<open>total_count\<close> is incremented exactly
  where an entry is appended, so it is the length of the list.
\<close>

definition positions_of :: "tube list \<Rightarrow> color \<Rightarrow> pos_entry list" where
  "positions_of tbs color =
     concat (map (\<lambda>(ti, tube).
       concat (map (\<lambda>(pos, tube_color).
         if tube_color = color
         then [\<lparr> tube_index = ti, position = pos,
                 depth = int (length tube) - pos - 1,
                 is_top = (pos = int (length tube) - 1) \<rparr>]
         else []) (enumerate_py tube))) (enumerate_py tbs))"

text \<open>
  \<open>list.sort(key = depth, reverse = True)\<close> is stable: entries of equal depth keep
  their order. So is \<open>sort_key\<close> on the negated key.
\<close>

definition analyze_color :: "solver \<Rightarrow> color \<Rightarrow> (color \<times> color_data) list" where
  "analyze_color s color =
     (let found = positions_of (tubes s) color;
          tc = int (length found)
      in if tc = tube_capacity s then
           (let sorted_positions = sort_key (\<lambda>p. - depth p) found
            in [(color,
                 \<lparr> total_count = tc,
                   positions = sorted_positions,
                   is_collectible = list_ex is_top sorted_positions,
                   max_depth = (if sorted_positions \<noteq> []
                                then Max (set (map depth sorted_positions)) else 0) \<rparr>)])
         else [])"

text \<open>
  \<open>all_colors\<close> is a Python set and the source iterates over it; the order of that
  iteration is not fixed by the language, so it is a parameter: \<open>all_colors\<close> is any
  list without repetition of the colours present (\<open>colour_order\<close>). The dict that
  \<open>analyze_colors\<close> returns keeps insertion order, hence an association list in the
  order of that iteration.
\<close>

definition colour_order :: "solver \<Rightarrow> color list \<Rightarrow> bool" where
  "colour_order s all_colors =
     (distinct all_colors \<and>
      set all_colors = fold (\<lambda>tube acc. acc \<union> set tube) (tubes s) {})"

definition analyze_colors :: "color list \<Rightarrow> solver \<Rightarrow> (color \<times> color_data) list" where
  "analyze_colors all_colors s = concat (map (analyze_color s) all_colors)"

text \<open>The score \<open>find_target_color\<close> gives to one entry of the analysis.\<close>

definition score_of :: "color_data \<Rightarrow> int" where
  "score_of data =
     (let score = max_depth data * 10;
          top_positions = filter is_top (positions data)
      in if length top_positions > 1 then score + int (length top_positions) * 5 else score)"

fun find_target_loop ::
  "(color \<times> color_data) list \<Rightarrow> color option \<Rightarrow> int \<Rightarrow> color option" where
  "find_target_loop [] best_color best_score = best_color"
| "find_target_loop ((color, data) # rest) best_color best_score =
     (if \<not> is_collectible data then find_target_loop rest best_color best_score
      else if score_of data > best_score
           then find_target_loop rest (Some color) (score_of data)
           else find_target_loop rest best_color best_score)"

definition find_target_color :: "color list \<Rightarrow> solver \<Rightarrow> color option" where
  "find_target_color all_colors s = find_target_loop (analyze_colors all_colors s) None (- 1)"

subsection \<open>find_moves_for_color\<close>

datatype move_type = collect | free | free_to_empty | merge

text \<open>
  A candidate move (a dict in the source). Its \<open>description\<close>, a text for the reader
  that nothing reads back, is left out.
\<close>

record move =
  from_idx :: int
  to_idx :: int
  mtype :: move_type
  priority :: int

record target_entry = pos_entry +
  blocking_colors :: "color list"

definition target_positions_of :: "tube list \<Rightarrow> color \<Rightarrow> target_entry list" where
  "target_positions_of tbs target_color =
     concat (map (\<lambda>(ti, tube).
       concat (map (\<lambda>(pos, tube_color).
         if tube_color = target_color
         then [\<lparr> tube_index = ti, position = pos,
                 depth = int (length tube) - pos - 1,
                 is_top = (pos = int (length tube) - 1),
                 blocking_colors = py_slice_from tube (pos + 1) \<rparr>]
         else []) (enumerate_py tube))) (enumerate_py tbs))"

text \<open>
  The loop \<open>for to in candidates: if src != to and self.can_pour(src, to): moves.append(...)\<close>,
  which the source writes three times. The test \<open>src != to\<close> comes first, and an
  exception of \<open>can_pour\<close> ends the whole call.
\<close>

fun gather_moves ::
  "solver \<Rightarrow> int \<Rightarrow> move_type \<Rightarrow> int \<Rightarrow> int list \<Rightarrow> error + move list" where
  "gather_moves s src ty prio [] = Inr []"
| "gather_moves s src ty prio (to # rest) =
     (if src \<noteq> to then
        (case can_pour s src to of
           Inl e \<Rightarrow> Inl e
         | Inr ok \<Rightarrow>
             (case gather_moves s src ty prio rest of
                Inl e \<Rightarrow> Inl e
              | Inr ms \<Rightarrow>
                  Inr ((if ok then [\<lparr> from_idx = src, to_idx = to, mtype = ty,
                                      priority = prio \<rparr>] else []) @ ms)))
      else gather_moves s src ty prio rest)"

text \<open>The body of the loop over \<open>target_positions\<close>, for one entry.\<close>

definition moves_for_position ::
  "solver \<Rightarrow> int list \<Rightarrow> int list \<Rightarrow> target_entry \<Rightarrow> error + move list" where
  "moves_for_position s empty_tubes tubes_with_space pos =
     (if is_top pos then gather_moves s (tube_index pos) collect 80 tubes_with_space
      else if blocking_colors pos \<noteq> [] then
        (case gather_moves s (tube_index pos) free 90 tubes_with_space of
           Inl e \<Rightarrow> Inl e
         | Inr ms1 \<Rightarrow>
             (case gather_moves s (tube_index pos) free_to_empty 95 empty_tubes of
                Inl e \<Rightarrow> Inl e
              | Inr ms2 \<Rightarrow> Inr (ms1 @ ms2)))
      else Inr [])"

fun moves_for_positions ::
  "solver \<Rightarrow> int list \<Rightarrow> int list \<Rightarrow> target_entry list \<Rightarrow> error + move list" where
  "moves_for_positions s empty_tubes tubes_with_space [] = Inr []"
| "moves_for_positions s empty_tubes tubes_with_space (pos # rest) =
     (case moves_for_position s empty_tubes tubes_with_space pos of
        Inl e \<Rightarrow> Inl e
      | Inr ms \<Rightarrow>
          (case moves_for_positions s empty_tubes tubes_with_space rest of
             Inl e \<Rightarrow> Inl e
           | Inr ms' \<Rightarrow> Inr (ms @ ms')))"

text \<open>The merge loops: every pair \<open>i < j\<close> of the tubes that show the target on top.\<close>

fun merge_inner :: "solver \<Rightarrow> int \<Rightarrow> int list \<Rightarrow> error + move list" where
  "merge_inner s src [] = Inr []"
| "merge_inner s src (to # rest) =
     (case can_pour s src to of
        Inl e \<Rightarrow> Inl e
      | Inr ok \<Rightarrow>
          (case merge_inner s src rest of
             Inl e \<Rightarrow> Inl e
           | Inr ms \<Rightarrow>
               Inr ((if ok then [\<lparr> from_idx = src, to_idx = to, mtype = merge,
                                   priority = 70 \<rparr>] else []) @ ms)))"

fun merge_outer :: "solver \<Rightarrow> int list \<Rightarrow> error + move list" where
  "merge_outer s [] = Inr []"
| "merge_outer s (src # rest) =
     (case merge_inner s src rest of
        Inl e \<Rightarrow> Inl e
      | Inr ms \<Rightarrow>
          (case merge_outer s rest of
             Inl e \<Rightarrow> Inl e
           | Inr ms' \<Rightarrow> Inr (ms @ ms')))"

definition find_moves_for_color :: "solver \<Rightarrow> color \<Rightarrow> error + move list" where
  "find_moves_for_color s target_color =
     (let empty_tubes = get_empty_tubes s;
          tubes_with_space = get_tubes_with_space s;
          target_positions =
            sort_key (\<lambda>p. - depth p) (target_positions_of (tubes s) target_color)
      in case moves_for_positions s empty_tubes tubes_with_space target_positions of
           Inl e \<Rightarrow> Inl e
         | Inr ms \<Rightarrow>
             (let tubes_with_target_top =
                    map fst (filter (\<lambda>(i, tube). tube \<noteq> [] \<and> last tube = target_color)
                                    (enumerate_py (tubes s)))
              in case (if length tubes_with_target_top > 1
                       then merge_outer s tubes_with_target_top else Inr []) of
                   Inl e \<Rightarrow> Inl e
                 | Inr ms' \<Rightarrow> Inr (sort_key (\<lambda>m. - priority m) (ms @ ms'))))"

subsection \<open>find_backup_move\<close>

text \<open>
  First pass, inner loop over \<open>from_idx\<close>. The conjunction is evaluated left to right,
  so \<open>self.tubes[from_idx][-1]\<close> is read only after \<open>can_pour\<close> has answered true.
\<close>

fun backup_inner ::
  "solver \<Rightarrow> int \<Rightarrow> color \<Rightarrow> int list \<Rightarrow> error + (int \<times> int) option" where
  "backup_inner s to color [] = Inr None"
| "backup_inner s to color (src # rest) =
     (if src \<noteq> to then
        (case can_pour s src to of
           Inl e \<Rightarrow> Inl e
         | Inr ok \<Rightarrow>
             if ok \<and> tubes s ! nat src \<noteq> [] \<and> last (tubes s ! nat src) = color
             then Inr (Some (src, to))
             else backup_inner s to color rest)
      else backup_inner s to color rest)"

text \<open>
  First pass, outer loop. \<open>tube[0]\<close> is read as soon as the length is one less than
  the capacity, before \<open>all\<close>; on an empty tube (capacity 1) the source raises
  \<open>IndexError\<close> there.
\<close>

fun backup_first_pass ::
  "solver \<Rightarrow> (int \<times> tube) list \<Rightarrow> error + (int \<times> int) option" where
  "backup_first_pass s [] = Inr None"
| "backup_first_pass s ((to, tube) # rest) =
     (if int (length tube) = tube_capacity s - 1 then
        (case tube of
           [] \<Rightarrow> Inl IndexError
         | color # _ \<Rightarrow>
             if list_all (\<lambda>c. c = color) tube then
               (case backup_inner s to color (range_py (length (tubes s))) of
                  Inl e \<Rightarrow> Inl e
                | Inr (Some m) \<Rightarrow> Inr (Some m)
                | Inr None \<Rightarrow> backup_first_pass s rest)
             else backup_first_pass s rest)
      else backup_first_pass s rest)"

text \<open>Second pass: the two nested \<open>range\<close> loops, returning at the first legal pour.\<close>

fun scan_to :: "solver \<Rightarrow> int \<Rightarrow> int list \<Rightarrow> error + (int \<times> int) option" where
  "scan_to s src [] = Inr None"
| "scan_to s src (to # rest) =
     (case can_pour s src to of
        Inl e \<Rightarrow> Inl e
      | Inr ok \<Rightarrow> if ok then Inr (Some (src, to)) else scan_to s src rest)"

fun scan_from :: "solver \<Rightarrow> int list \<Rightarrow> error + (int \<times> int) option" where
  "scan_from s [] = Inr None"
| "scan_from s (src # rest) =
     (case scan_to s src (range_py (length (tubes s))) of
        Inl e \<Rightarrow> Inl e
      | Inr (Some m) \<Rightarrow> Inr (Some m)
      | Inr None \<Rightarrow> scan_from s rest)"

definition find_backup_move :: "solver \<Rightarrow> error + (int \<times> int) option" where
  "find_backup_move s =
     (case backup_first_pass s (enumerate_py (tubes s)) of
        Inl e \<Rightarrow> Inl e
      | Inr (Some m) \<Rightarrow> Inr (Some m)
      | Inr None \<Rightarrow> scan_from s (range_py (length (tubes s))))"

subsection \<open>solve\<close>

text \<open>The escape branch's nested loops: every pair that \<open>can_pour\<close> accepts, in index order.\<close>

fun all_moves_to :: "solver \<Rightarrow> int \<Rightarrow> int list \<Rightarrow> error + (int \<times> int) list" where
  "all_moves_to s src [] = Inr []"
| "all_moves_to s src (to # rest) =
     (case can_pour s src to of
        Inl e \<Rightarrow> Inl e
      | Inr ok \<Rightarrow>
          (case all_moves_to s src rest of
             Inl e \<Rightarrow> Inl e
           | Inr ms \<Rightarrow> Inr ((if ok then [(src, to)] else []) @ ms)))"

fun all_moves_from :: "solver \<Rightarrow> int list \<Rightarrow> error + (int \<times> int) list" where
  "all_moves_from s [] = Inr []"
| "all_moves_from s (src # rest) =
     (case all_moves_to s src (range_py (length (tubes s))) of
        Inl e \<Rightarrow> Inl e
      | Inr ms \<Rightarrow>
          (case all_moves_from s rest of
             Inl e \<Rightarrow> Inl e
           | Inr ms' \<Rightarrow> Inr (ms @ ms')))"

text \<open>What one pass through the body of the \<open>while\<close> loop ends with.\<close>

datatype step_result = Break solver | Continue solver

text \<open>\<open>self.pour(a, b)\<close> as a statement: the flag is dropped.\<close>

definition pour_stmt :: "solver \<Rightarrow> int \<Rightarrow> int \<Rightarrow> error + step_result" where
  "pour_stmt s a b =
     (case pour s a b of Inl e \<Rightarrow> Inl e | Inr (ok, s') \<Rightarrow> Inr (Continue s'))"

text \<open>The fallback the source writes out twice: pour the backup move, or \<open>break\<close>.\<close>

definition backup_or_break :: "solver \<Rightarrow> error + step_result" where
  "backup_or_break s =
     (case find_backup_move s of
        Inl e \<Rightarrow> Inl e
      | Inr (Some (a, b)) \<Rightarrow> pour_stmt s a b
      | Inr None \<Rightarrow> Inr (Break s))"

text \<open>
  The loop body. \<open>random.choice\<close> is a parameter: \<open>rnd k\<close> is the number drawn in the
  pass that starts with \<open>move_count = k\<close>, and the move chosen is the one at that
  number modulo the length of the list. \<open>iter\<close> gives the order in which the set
  \<open>all_colors\<close> of \<open>analyze_colors\<close> is iterated. \<open>if target_color:\<close> is false for
  \<open>None\<close> and for the colour 0. The progress lines printed every hundred moves are
  output only and are left out.
\<close>

definition solve_step ::
  "(int \<Rightarrow> nat) \<Rightarrow> (tube list \<Rightarrow> color list) \<Rightarrow> solver \<Rightarrow> int \<Rightarrow> error + step_result" where
  "solve_step rnd iter s move_count =
     (let state_hash = get_state_hash s in
      if state_hash \<in> visited_states s then
        (case all_moves_from s (range_py (length (tubes s))) of
           Inl e \<Rightarrow> Inl e
         | Inr all_moves \<Rightarrow>
             if all_moves \<noteq> [] then
               (let random_move = all_moves ! (rnd move_count mod length all_moves)
                in pour_stmt s (fst random_move) (snd random_move))
             else Inr (Break s))
      else
        (let s1 = s\<lparr>visited_states := insert state_hash (visited_states s)\<rparr>
         in case find_target_color (iter (tubes s1)) s1 of
              None \<Rightarrow> backup_or_break s1
            | Some target_color \<Rightarrow>
                if target_color \<noteq> 0 then
                  (case find_moves_for_color s1 target_color of
                     Inl e \<Rightarrow> Inl e
                   | Inr color_moves \<Rightarrow>
                       if color_moves \<noteq> [] then
                         (let best_move = hd color_moves
                          in pour_stmt s1 (from_idx best_move) (to_idx best_move))
                       else backup_or_break s1)
                else backup_or_break s1))"

text \<open>
  The \<open>while\<close> loop has no bound in the source, so it is a partial function: \<open>None\<close>
  is a run that never leaves the loop, \<open>Some (Inl e)\<close> a run that raises.
\<close>

partial_function (option) solve_loop ::
  "(int \<Rightarrow> nat) \<Rightarrow> (tube list \<Rightarrow> color list) \<Rightarrow> solver \<Rightarrow> int \<Rightarrow> (error + solver) option" where
  "solve_loop rnd iter s move_count =
     (if is_solved s then Some (Inr s)
      else (case solve_step rnd iter s move_count of
              Inl e \<Rightarrow> Some (Inl e)
            | Inr (Break s') \<Rightarrow> Some (Inr s')
            | Inr (Continue s') \<Rightarrow> solve_loop rnd iter s' (move_count + 1)))"

text \<open>\<open>solve\<close>: reset, run the loop, and return \<open>is_solved()\<close> with the final state.\<close>

definition solve ::
  "(int \<Rightarrow> nat) \<Rightarrow> (tube list \<Rightarrow> color list) \<Rightarrow> solver \<Rightarrow> (error + bool \<times> solver) option" where
  "solve rnd iter s =
     (let s0 = s\<lparr>tubes := original_tubes s, moves := [], visited_states := {}\<rparr>
      in case solve_loop rnd iter s0 0 of
           None \<Rightarrow> None
         | Some (Inl e) \<Rightarrow> Some (Inl e)
         | Some (Inr s') \<Rightarrow> Some (Inr (is_solved s', s')))"

subsection \<open>Notions of the specification\<close>

text \<open>
  The maximal run of one colour at the top of a tube, as the specification words it:
  the units counted downward from the top while they have the colour of the top unit.
\<close>

definition top_run :: "tube \<Rightarrow> nat" where
  "top_run tb = length (takeWhile (\<lambda>c. c = last tb) (rev tb))"

text \<open>
  The top \<open>k\<close> units of a tube all have colour \<open>c\<close> and the unit below them, if there
  is one, has another colour.
\<close>

definition top_units :: "tube \<Rightarrow> nat \<Rightarrow> color \<Rightarrow> bool" where
  "top_units tb k c =
     (1 \<le> k \<and> k \<le> length tb \<and> drop (length tb - k) tb = replicate k c \<and>
      (k < length tb \<longrightarrow> tb ! (length tb - k - 1) \<noteq> c))"

text \<open>
  The number of units the specification lets a pour move from the tube at position \<open>a\<close>
  to the tube at position \<open>b\<close>: the smaller of the run and the free space.
\<close>

definition pour_amount :: "solver \<Rightarrow> nat \<Rightarrow> nat \<Rightarrow> nat" where
  "pour_amount s a b =
     min (top_run (tubes s ! a)) (nat (tube_capacity s - int (length (tubes s ! b))))"

text \<open>
  A tube that is exactly at capacity with all its units of one colour.
\<close>

definition full_single :: "solver \<Rightarrow> tube \<Rightarrow> bool" where
  "full_single s tb = (int (length tb) = tube_capacity s \<and> card (set tb) \<le> 1)"

text \<open>The indices of the tubes: \<open>0 \<dots> len - 1\<close>, the values of \<open>range(len(self.tubes))\<close>.\<close>

definition valid_index :: "solver \<Rightarrow> int \<Rightarrow> bool" where
  "valid_index s i = (0 \<le> i \<and> i < int (length (tubes s)))"

text \<open>A legal pour: a pair of tube indices that \<open>can_pour\<close> accepts.\<close>

definition legal_pour :: "solver \<Rightarrow> int \<Rightarrow> int \<Rightarrow> bool" where
  "legal_pour s f t = (valid_index s f \<and> valid_index s t \<and> can_pour s f t = Inr True)"

text \<open>
  What the first pass of the backup move looks for: a legal pour into a tube that is
  exactly one unit short of full and whose units all have the colour on top of the
  source.
\<close>

definition almost_complete_pour :: "solver \<Rightarrow> int \<Rightarrow> int \<Rightarrow> bool" where
  "almost_complete_pour s f t =
     (legal_pour s f t \<and>
      int (length (tubes s ! nat t)) = tube_capacity s - 1 \<and>
      list_all (\<lambda>c. c = last (tubes s ! nat f)) (tubes s ! nat t))"

text \<open>The first legal pour in index order: source first, then destination.\<close>

definition first_legal_pour :: "solver \<Rightarrow> int \<Rightarrow> int \<Rightarrow> bool" where
  "first_legal_pour s f t =
     (legal_pour s f t \<and>
      (\<forall>f' \<in> set (range_py (length (tubes s))). \<forall>t' \<in> set (range_py (length (tubes s))).
         legal_pour s f' t' \<longrightarrow> f < f' \<or> (f = f' \<and> t \<le> t')))"

text \<open>
  The analyzer's notions in the specification's words. The number of units of a colour
  in the state, and the number of its topmost occurrences (tubes that show it on top).
\<close>

definition unit_count :: "solver \<Rightarrow> color \<Rightarrow> nat" where
  "unit_count s c = count_list (concat (tubes s)) c"

definition top_count :: "solver \<Rightarrow> color \<Rightarrow> nat" where
  "top_count s c = length (filter (\<lambda>tb. tb \<noteq> [] \<and> last tb = c) (tubes s))"

text \<open>
  A collectible colour: its unit count equals the capacity and at least one occurrence
  is topmost.
\<close>

definition collectible :: "solver \<Rightarrow> color \<Rightarrow> bool" where
  "collectible s c = (int (unit_count s c) = tube_capacity s \<and> 0 < top_count s c)"

text \<open>
  The depth of an occurrence is its distance from the top of its tube (0 for the top
  unit); the depths of the occurrences of a colour in one tube, and the maximum over
  the whole state.
\<close>

definition tube_depths :: "tube \<Rightarrow> color \<Rightarrow> int list" where
  "tube_depths tb c =
     map (\<lambda>p. int (length tb) - int p - 1) (filter (\<lambda>p. tb ! p = c) [0..<length tb])"

definition colour_max_depth :: "solver \<Rightarrow> color \<Rightarrow> int" where
  "colour_max_depth s c = Max (set (concat (map (\<lambda>tb. tube_depths tb c) (tubes s))))"

text \<open>
  The score: ten times the maximum depth, plus five per topmost occurrence when more
  than one occurrence is topmost.
\<close>

definition target_score :: "solver \<Rightarrow> color \<Rightarrow> int" where
  "target_score s c =
     colour_max_depth s c * 10 + (if 1 < top_count s c then 5 * int (top_count s c) else 0)"

text \<open>
  The entries that the inner loop of \<open>positions_of\<close> appends for one tube, written over
  the positions of the tube (used to relate the loop to the notions above).
\<close>

definition tube_entries :: "int \<Rightarrow> tube \<Rightarrow> color \<Rightarrow> pos_entry list" where
  "tube_entries ti tube c =
     map (\<lambda>p. \<lparr> tube_index = ti, position = int p,
                 depth = int (length tube) - int p - 1,
                 is_top = (int p = int (length tube) - 1) \<rparr>)
         (filter (\<lambda>p. tube ! p = c) [0..<length tube])"

text \<open>The states that calls of \<open>pour\<close> lead to from a freshly constructed solver.\<close>

inductive reachable :: "tube list \<Rightarrow> solver \<Rightarrow> bool" for ts :: "tube list" where
  reachable_init: "reachable ts (TubeSolver ts)"
| reachable_pour: "reachable ts s \<Longrightarrow> pour s f t = Inr (ok, s') \<Longrightarrow> reachable ts s'"

subsection \<open>Example states\<close>

text \<open>
  A solved state of a puzzle of two colours and one empty tube, and the two-tube example
  of the specification: the configuration \<open>[[1], [1]]\<close> with the capacity set to 2.
\<close>

definition solved_example :: solver where
  "solved_example =
     (TubeSolver [[1, 1, 2, 2], [2, 2, 1, 1], []])\<lparr>tubes := [[1, 1, 1, 1], [2, 2, 2, 2], []]\<rparr>"

definition two_tubes :: solver where
  "two_tubes = (TubeSolver [[1], [1]])\<lparr>tube_capacity := 2\<rparr>"

text \<open>A state in which the first pass of the backup move finds a pour.\<close>

definition backup_example :: solver where
  "backup_example = TubeSolver [[1, 2], [2, 2, 2], [3]]"

text \<open>
  The stuck scenario of the specification: three full tubes, two colours interleaved in
  each.
\<close>

definition stuck_example :: solver where
  "stuck_example = TubeSolver [[1, 2, 1, 2], [2, 3, 2, 3], [3, 1, 3, 1]]"

text \<open>A state with two collectible colours of different scores.\<close>

definition target_example :: solver where
  "target_example = TubeSolver [[1, 1, 2, 2], [2, 2, 1], [1]]"

section \<open>Basic facts about indexing and pour\<close>

lemma py_index_less: "py_index xs i = Some k \<Longrightarrow> k < length xs"
  by (auto simp: py_index_def Let_def split: if_splits)

lemma py_index_nonneg: "0 \<le> i \<Longrightarrow> i < int (length xs) \<Longrightarrow> py_index xs i = Some (nat i)"
  by (simp add: py_index_def)

lemma can_pour_TrueD:
  assumes "can_pour s f t = Inr True"
  obtains a b where "py_index (tubes s) f = Some a" "py_index (tubes s) t = Some b"
    "a < length (tubes s)" "b < length (tubes s)" "tubes s ! a \<noteq> []"
    "int (length (tubes s ! b)) < tube_capacity s"
    "tubes s ! b = [] \<or> last (tubes s ! b) = last (tubes s ! a)" "f \<noteq> t"
  using assms
  by (auto simp: can_pour_def Let_def py_index_less split: if_splits option.splits)

lemma run_count_eq: "run_count c xs n = n + int (length (takeWhile (\<lambda>x. x = c) xs))"
  by (induction xs arbitrary: n) auto

lemma top_run_le: "top_run tb \<le> length tb"
  unfolding top_run_def by (metis length_rev length_takeWhile_le)

lemma top_run_pos: "tb \<noteq> [] \<Longrightarrow> 1 \<le> top_run tb"
  unfolding top_run_def by (cases tb rule: rev_cases) auto

lemma py_slices_neg:
  assumes "1 \<le> k" "k \<le> length xs"
  shows "py_slice_from xs (- int k) = drop (length xs - k) xs"
    and "py_slice_to xs (- int k) = take (length xs - k) xs"
  using assms
  by (auto simp: py_slice_from_def py_slice_to_def py_bound_def Let_def nat_diff_distrib')

lemma pour_amount_bounds:
  assumes "tubes s ! a \<noteq> []" "int (length (tubes s ! b)) < tube_capacity s"
  shows "1 \<le> pour_amount s a b" "pour_amount s a b \<le> length (tubes s ! a)"
    "int (pour_amount s a b) \<le> tube_capacity s - int (length (tubes s ! b))"
  using assms top_run_pos[of "tubes s ! a"] top_run_le[of "tubes s ! a"]
  by (auto simp: pour_amount_def)

text \<open>What a pour that \<open>can_pour\<close> allows does, with the Python slices resolved.\<close>

lemma pour_success:
  assumes cp: "can_pour s f t = Inr True"
    and a: "py_index (tubes s) f = Some a" and b: "py_index (tubes s) t = Some b"
  shows "pour s f t = Inr (True, s\<lparr>tubes :=
            ((tubes s)[a := take (length (tubes s ! a) - pour_amount s a b) (tubes s ! a)])
              [b := ((tubes s)[a := take (length (tubes s ! a) - pour_amount s a b) (tubes s ! a)]) ! b
                     @ drop (length (tubes s ! a) - pour_amount s a b) (tubes s ! a)],
            moves := moves s @ [(f, t)]\<rparr>)"
proof -
  from cp a b have ne: "tubes s ! a \<noteq> []" and sp: "int (length (tubes s ! b)) < tube_capacity s"
    by (auto elim!: can_pour_TrueD)
  let ?src = "tubes s ! a"
  let ?k = "pour_amount s a b"
  have mn: "min (run_count (last ?src) (rev ?src) 0) (tube_capacity s - int (length (tubes s ! b)))
              = int ?k"
  proof -
    have "run_count (last ?src) (rev ?src) 0 = int (top_run ?src)"
      by (simp add: run_count_eq top_run_def)
    then show ?thesis using sp unfolding pour_amount_def by linarith
  qed
  note bd = pour_amount_bounds[OF ne sp]
  show ?thesis
    using cp a b py_slices_neg[OF bd(1) bd(2)]
    by (simp add: pour_def Let_def mn)
qed

lemma mset_concat_update:
  "i < length xs \<Longrightarrow> mset (concat (xs[i := y])) + mset (xs ! i) = mset (concat xs) + mset y"
  by (induction xs arbitrary: i) (auto split: nat.splits)

lemma mset_shuffle:
  fixes A B C D S T :: "'a multiset"
  assumes "B + S = C + T" "A = B + D" "T + D = S"
  shows "A = C"
proof -
  have "A + S = (B + S) + D" unfolding assms(2) by (simp add: ac_simps)
  also have "\<dots> = C + (T + D)" unfolding assms(1) by (simp add: ac_simps)
  also have "\<dots> = C + S" unfolding assms(3) ..
  finally show ?thesis by simp
qed

lemma pour_cases:
  assumes "pour s f t = Inr (ok, s')"
  obtains (refused) "s' = s"
  | (poured) a b where "can_pour s f t = Inr True" "py_index (tubes s) f = Some a"
      "py_index (tubes s) t = Some b"
proof (cases "can_pour s f t")
  case (Inl e)
  with assms show ?thesis by (simp add: pour_def)
next
  case (Inr c)
  show ?thesis
  proof (cases c)
    case True
    with Inr have cp: "can_pour s f t = Inr True" by simp
    from cp obtain a b where "py_index (tubes s) f = Some a" "py_index (tubes s) t = Some b"
      by (elim can_pour_TrueD)
    with cp show ?thesis by (rule poured)
  next
    case False
    with Inr assms have "s' = s" by (simp add: pour_def)
    then show ?thesis by (rule refused)
  qed
qed

lemma pour_poured:
  assumes p: "pour s f t = Inr (ok, s')" and cp: "can_pour s f t = Inr True"
    and a: "py_index (tubes s) f = Some a" and b: "py_index (tubes s) t = Some b"
  shows "ok"
    and "tubes s' =
      ((tubes s)[a := take (length (tubes s ! a) - pour_amount s a b) (tubes s ! a)])
        [b := ((tubes s)[a := take (length (tubes s ! a) - pour_amount s a b) (tubes s ! a)]) ! b
               @ drop (length (tubes s ! a) - pour_amount s a b) (tubes s ! a)]"
    and "moves s' = moves s @ [(f, t)]"
    and "original_tubes s' = original_tubes s" and "tube_capacity s' = tube_capacity s"
    and "total_colors s' = total_colors s" and "empty_tubes_count s' = empty_tubes_count s"
    and "visited_states s' = visited_states s"
proof -
  from p have e: "Inr (ok, s') = pour s f t" by simp
  note e' = e[unfolded pour_success[OF cp a b]]
  from e' show "ok" by simp
  from e' have s': "s' = s\<lparr>tubes :=
            ((tubes s)[a := take (length (tubes s ! a) - pour_amount s a b) (tubes s ! a)])
              [b := ((tubes s)[a := take (length (tubes s ! a) - pour_amount s a b) (tubes s ! a)]) ! b
                     @ drop (length (tubes s ! a) - pour_amount s a b) (tubes s ! a)],
            moves := moves s @ [(f, t)]\<rparr>"
    by simp
  show "tubes s' =
      ((tubes s)[a := take (length (tubes s ! a) - pour_amount s a b) (tubes s ! a)])
        [b := ((tubes s)[a := take (length (tubes s ! a) - pour_amount s a b) (tubes s ! a)]) ! b
               @ drop (length (tubes s ! a) - pour_amount s a b) (tubes s ! a)]"
    by (subst s') simp
  show "moves s' = moves s @ [(f, t)]" by (subst s') simp
  show "original_tubes s' = original_tubes s" by (subst s') simp
  show "tube_capacity s' = tube_capacity s" by (subst s') simp
  show "total_colors s' = total_colors s" by (subst s') simp
  show "empty_tubes_count s' = empty_tubes_count s" by (subst s') simp
  show "visited_states s' = visited_states s" by (subst s') simp
qed

lemma pour_preserves_units:
  assumes "pour s f t = Inr (ok, s')"
  shows "mset (concat (tubes s')) = mset (concat (tubes s))"
  using assms
proof (cases rule: pour_cases)
  case refused
  then show ?thesis by simp
next
  case (poured a b)
  let ?xs = "tubes s"
  let ?src = "?xs ! a"
  let ?m = "length ?src - pour_amount s a b"
  let ?xs1 = "?xs[a := take ?m ?src]"
  let ?xs2 = "?xs1[b := ?xs1 ! b @ drop ?m ?src]"
  have la: "a < length ?xs" and lb: "b < length ?xs"
    using poured py_index_less by auto
  have s': "tubes s' = ?xs2"
    using pour_poured(2)[OF assms poured] .
  have 1: "mset (concat ?xs1) + mset ?src = mset (concat ?xs) + mset (take ?m ?src)"
    using mset_concat_update[OF la] .
  have "mset (concat ?xs2) + mset (?xs1 ! b) = mset (concat ?xs1) + mset (?xs1 ! b @ drop ?m ?src)"
    using mset_concat_update[of b ?xs1] lb by simp
  then have 2: "mset (concat ?xs2) = mset (concat ?xs1) + mset (drop ?m ?src)"
    by simp
  have "mset (take ?m ?src) + mset (drop ?m ?src) = mset ?src"
    by (metis append_take_drop_id mset_append)
  with 1 2 have "mset (concat ?xs2) = mset (concat ?xs)"
    by (rule mset_shuffle)
  then show ?thesis using s' by simp
qed

lemma pour_fields:
  assumes "pour s f t = Inr (ok, s')"
  shows "original_tubes s' = original_tubes s" "tube_capacity s' = tube_capacity s"
    "total_colors s' = total_colors s" "empty_tubes_count s' = empty_tubes_count s"
    "visited_states s' = visited_states s" "length (tubes s') = length (tubes s)"
proof -
  have "original_tubes s' = original_tubes s \<and> tube_capacity s' = tube_capacity s \<and>
    total_colors s' = total_colors s \<and> empty_tubes_count s' = empty_tubes_count s \<and>
    visited_states s' = visited_states s \<and> length (tubes s') = length (tubes s)"
    using assms
  proof (cases rule: pour_cases)
    case refused
    then show ?thesis by simp
  next
    case (poured a b)
    from pour_poured[OF assms poured] show ?thesis by simp
  qed
  then show "original_tubes s' = original_tubes s" "tube_capacity s' = tube_capacity s"
    "total_colors s' = total_colors s" "empty_tubes_count s' = empty_tubes_count s"
    "visited_states s' = visited_states s" "length (tubes s') = length (tubes s)"
    by simp_all
qed

lemma pour_preserves_bound:
  assumes p: "pour s f t = Inr (ok, s')" and i: "i < length (tubes s)"
  shows "int (length (tubes s' ! i)) \<le> max (tube_capacity s) (int (length (tubes s ! i)))"
  using p
proof (cases rule: pour_cases)
  case refused
  then show ?thesis by simp
next
  case (poured a b)
  let ?xs = "tubes s"
  let ?src = "?xs ! a"
  let ?k = "pour_amount s a b"
  let ?m = "length ?src - ?k"
  have la: "a < length ?xs" and lb: "b < length ?xs"
    using poured py_index_less by auto
  from poured have ne: "?src \<noteq> []" and sp: "int (length (?xs ! b)) < tube_capacity s"
    by (auto elim!: can_pour_TrueD)
  note bd = pour_amount_bounds[OF ne sp]
  define na where "na = take ?m ?src"
  define nb where "nb = (?xs[a := na]) ! b @ drop ?m ?src"
  have s': "tubes s' = (?xs[a := na])[b := nb]"
    using pour_poured(2)[OF p poured] by (simp add: na_def nb_def)
  have lna: "length na \<le> length ?src" by (simp add: na_def)
  have lnb: "int (length nb) \<le> max (tube_capacity s) (int (length (?xs ! b)))"
  proof (cases "a = b")
    case True
    then have "nb = take ?m ?src @ drop ?m ?src" using la by (simp add: nb_def na_def)
    then have "nb = ?src" by simp
    then show ?thesis using True by simp
  next
    case False
    then have "nb = ?xs ! b @ drop ?m ?src" by (simp add: nb_def)
    then show ?thesis using bd by simp
  qed
  show ?thesis
  proof (cases "i = b")
    case True
    then show ?thesis using s' i lnb by simp
  next
    case nb: False
    show ?thesis
    proof (cases "i = a")
      case True
      then show ?thesis using s' i nb lna by simp
    next
      case False
      then show ?thesis using s' nb by simp
    qed
  qed
qed

lemma reachable_units:
  "reachable ts s \<Longrightarrow> mset (concat (tubes s)) = mset (concat ts)"
proof (induction rule: reachable.induct)
  case reachable_init
  show ?case by (simp add: TubeSolver_def)
next
  case (reachable_pour s f t ok s')
  then show ?case using pour_preserves_units by metis
qed

lemma reachable_capacity:
  "reachable ts s \<Longrightarrow> tube_capacity s = 4"
proof (induction rule: reachable.induct)
  case reachable_init
  show ?case by (simp add: TubeSolver_def)
next
  case (reachable_pour s f t ok s')
  then show ?case using pour_fields(2) by metis
qed

lemma reachable_bound:
  assumes "reachable ts s"
  shows "length (tubes s) = length ts \<and>
    (\<forall>i < length ts. int (length (tubes s ! i)) \<le> max 4 (int (length (ts ! i))))"
  using assms
proof (induction rule: reachable.induct)
  case reachable_init
  show ?case by (simp add: TubeSolver_def)
next
  case (reachable_pour s f t ok s')
  have c: "tube_capacity s = 4" using reachable_pour.hyps(1) by (rule reachable_capacity)
  have len: "length (tubes s') = length (tubes s)"
    using pour_fields(6)[OF reachable_pour.hyps(2)] .
  have "int (length (tubes s' ! i)) \<le> max 4 (int (length (ts ! i)))" if i: "i < length ts" for i
  proof -
    from i reachable_pour.IH have i': "i < length (tubes s)"
      and old: "int (length (tubes s ! i)) \<le> max 4 (int (length (ts ! i)))"
      by simp_all
    from pour_preserves_bound[OF reachable_pour.hyps(2) i']
    have "int (length (tubes s' ! i)) \<le> max 4 (int (length (tubes s ! i)))"
      unfolding c .
    with old show ?thesis by linarith
  qed
  with len reachable_pour.IH show ?case by simp
qed

lemma takeWhile_replicate_append:
  "takeWhile (\<lambda>x. x = c) (replicate k c @ ys) = replicate k c @ takeWhile (\<lambda>x. x = c) ys"
  by (induction k) auto

lemma top_units_run:
  assumes "top_units tb k c"
  shows "top_run tb = k" and "last tb = c"
    and "take (length tb - k) tb = [] \<or> last (take (length tb - k) tb) \<noteq> c"
proof -
  let ?m = "length tb - k"
  from assms have k: "1 \<le> k" "k \<le> length tb" and d: "drop ?m tb = replicate k c"
    and below: "k < length tb \<longrightarrow> tb ! (?m - 1) \<noteq> c"
    by (auto simp: top_units_def)
  have tb: "tb = take ?m tb @ replicate k c"
    using d by (metis append_take_drop_id)
  have rne: "replicate k c \<noteq> []" using k by auto
  show l: "last tb = c"
    by (subst tb) (use rne k in \<open>simp\<close>)
  show low: "take ?m tb = [] \<or> last (take ?m tb) \<noteq> c"
  proof (cases "k < length tb")
    case True
    then have "take ?m tb \<noteq> []" by auto
    then have "last (take ?m tb) = tb ! (?m - 1)"
      using True by (simp add: last_conv_nth)
    then show ?thesis using below True by simp
  next
    case False
    then show ?thesis using k by simp
  qed
  have "rev tb = replicate k c @ rev (take ?m tb)"
    by (subst tb) simp
  then have "takeWhile (\<lambda>x. x = c) (rev tb)
      = replicate k c @ takeWhile (\<lambda>x. x = c) (rev (take ?m tb))"
    by (simp add: takeWhile_replicate_append)
  moreover have "takeWhile (\<lambda>x. x = c) (rev (take ?m tb)) = []"
  proof -
    define lo where "lo = take ?m tb"
    from low have "lo = [] \<or> last lo \<noteq> c" by (simp only: lo_def)
    then have "takeWhile (\<lambda>x. x = c) (rev lo) = []"
      by (cases lo rule: rev_cases) auto
    then show ?thesis by (simp only: lo_def)
  qed
  ultimately show "top_run tb = k"
    unfolding top_run_def l by simp
qed

text \<open>A concrete pour, evaluated: the two top units of colour 2 move onto the 2.\<close>

lemma can_pour_example: "can_pour (TubeSolver [[1, 2, 2], [2]]) 0 1 = Inr True"
  by (simp add: can_pour_def py_index_def TubeSolver_def)

lemma pour_example:
  "pour (TubeSolver [[1, 2, 2], [2]]) 0 1 =
     Inr (True, (TubeSolver [[1, 2, 2], [2]])\<lparr>tubes := [[1], [2, 2, 2]], moves := [(0, 1)]\<rparr>)"
  by (simp add: pour_def can_pour_def py_index_def TubeSolver_def Let_def
      py_slice_from_def py_slice_to_def py_bound_def)

text \<open>Facts about \<open>is_solved\<close> and the constructor's counters.\<close>

lemma fold_union_colors:
  "fold (\<lambda>tube acc. acc \<union> set tube) ts A = A \<union> (\<Union>tb \<in> set ts. set tb)"
  by (induction ts arbitrary: A) auto

lemma count_total_colors_card:
  "count_total_colors ts = int (card (\<Union>tb \<in> set ts. set tb))"
  by (simp add: count_total_colors_def fold_union_colors)

lemma one_colour_iff:
  assumes "tb \<noteq> []"
  shows "(\<not> list_ex (\<lambda>c. c \<noteq> hd tb) (tl tb)) = (card (set tb) \<le> 1)"
proof -
  from assms obtain x xs where tb: "tb = x # xs" by (cases tb) auto
  have "card (insert x (set xs)) \<le> Suc 0 \<longleftrightarrow> (\<forall>a \<in> insert x (set xs). \<forall>b \<in> insert x (set xs). a = b)"
    by (rule card_le_Suc0_iff_eq) simp
  also have "\<dots> \<longleftrightarrow> (\<forall>c \<in> set xs. c = x)"
  proof
    assume "\<forall>a \<in> insert x (set xs). \<forall>b \<in> insert x (set xs). a = b"
    then show "\<forall>c \<in> set xs. c = x" by simp
  next
    assume "\<forall>c \<in> set xs. c = x"
    then have "insert x (set xs) = {x}" by auto
    then show "\<forall>a \<in> insert x (set xs). \<forall>b \<in> insert x (set xs). a = b"
      by (metis singletonD)
  qed
  finally show ?thesis by (auto simp: tb list_ex_iff)
qed

lemma is_solved_loop_eq:
  assumes "0 < tube_capacity s"
  shows "is_solved_loop s tbs c e \<longleftrightarrow>
    (\<forall>tb \<in> set tbs. tb = [] \<or> full_single s tb) \<and>
    c + int (length (filter (full_single s) tbs)) = total_colors s \<and>
    e + int (length (filter (\<lambda>tb. tb = []) tbs)) = empty_tubes_count s"
proof (induction tbs arbitrary: c e)
  case Nil
  show ?case by simp
next
  case (Cons tb tbs)
  show ?case
  proof (cases "tb = []")
    case True
    then have "\<not> full_single s tb" using assms by (simp add: full_single_def)
    with True show ?thesis by (simp add: Cons.IH add.assoc)
  next
    case False
    then have fs: "full_single s tb \<longleftrightarrow>
        int (length tb) = tube_capacity s \<and> \<not> list_ex (\<lambda>c. c \<noteq> hd tb) (tl tb)"
      by (simp add: full_single_def one_colour_iff)
    show ?thesis
    proof (cases "full_single s tb")
      case True
      with fs False show ?thesis by (simp add: Cons.IH add.assoc)
    next
      case nf: False
      with fs False show ?thesis by auto
    qed
  qed
qed

lemma reachable_consistent:
  assumes "reachable ts s"
  shows "original_tubes s = ts" "total_colors s = count_total_colors (original_tubes s)"
    "empty_tubes_count s = count_empty_tubes (original_tubes s)"
proof -
  have "original_tubes s = ts \<and> total_colors s = count_total_colors ts \<and>
    empty_tubes_count s = count_empty_tubes ts"
    using assms
  proof (induction rule: reachable.induct)
    case reachable_init
    show ?case by (simp add: TubeSolver_def)
  next
    case (reachable_pour s f t ok s')
    then show ?case using pour_fields(1,3,4) by metis
  qed
  then show "original_tubes s = ts" "total_colors s = count_total_colors (original_tubes s)"
    "empty_tubes_count s = count_empty_tubes (original_tubes s)"
    by simp_all
qed

lemma two_tubes_pour:
  "pour two_tubes 0 1 = Inr (True, two_tubes\<lparr>tubes := [[], [1, 1]], moves := [(0, 1)]\<rparr>)"
  by (simp add: two_tubes_def pour_def can_pour_def py_index_def TubeSolver_def Let_def
      py_slice_from_def py_slice_to_def py_bound_def)

text \<open>Sorting depends on the multiset only; a fingerprint evaluated.\<close>

lemma sort_mset_eq:
  fixes xs ys :: "'a::linorder list"
  assumes "mset xs = mset ys"
  shows "sort xs = sort ys"
  by (rule properties_for_sort) (simp_all add: assms)

lemma hash_example: "get_state_hash (TubeSolver [[1, 2], [], [3, 10]]) = ''|1,2|3,10''"
  by code_simp

text \<open>
  The loops of \<open>find_backup_move\<close>, characterised: over tube indices \<open>can_pour\<close> never
  raises, the scans return the first pair they accept, and the first pass returns a
  pour into an almost complete tube or nothing when there is none.
\<close>

lemma set_range_py: "i \<in> set (range_py n) \<longleftrightarrow> 0 \<le> i \<and> i < int n"
  unfolding range_py_def by (auto simp: image_iff) (metis nat_less_iff nat_0_le atLeastLessThan_iff atLeast0LessThan lessThan_iff)

lemma sorted_range_py: "sorted (range_py n)"
  unfolding range_py_def by (simp add: sorted_map sorted_wrt_iff_nth_less)

lemma valid_range: "valid_index s i \<longleftrightarrow> i \<in> set (range_py (length (tubes s)))"
  by (simp add: valid_index_def set_range_py)

lemma enumerate_py_map: "enumerate_py xs = map (\<lambda>i. (int i, xs ! i)) [0..<length xs]"
  unfolding enumerate_py_def range_py_def
  by (rule nth_equalityI) simp_all

lemma set_enumerate_py:
  "(i, x) \<in> set (enumerate_py xs) \<longleftrightarrow> 0 \<le> i \<and> i < int (length xs) \<and> x = xs ! nat i"
  unfolding enumerate_py_map by (auto simp: image_iff) (metis nat_less_iff nat_0_le atLeastLessThan_iff atLeast0LessThan lessThan_iff nat_int)

lemma can_pour_valid:
  assumes "valid_index s f" "valid_index s t"
  shows "\<exists>b. can_pour s f t = Inr b"
  using assms by (auto simp: can_pour_def valid_index_def py_index_nonneg Let_def)

lemma can_pour_valid_nonempty:
  assumes "valid_index s f" "can_pour s f t = Inr True"
  shows "tubes s ! nat f \<noteq> []" "f \<noteq> t"
  using assms by (auto simp: valid_index_def py_index_nonneg elim!: can_pour_TrueD)


lemma scan_to_char:
  assumes "valid_index s src" "\<forall>t \<in> set tos. valid_index s t" "sorted tos"
  shows "\<exists>r. scan_to s src tos = Inr r \<and>
     (r = None \<longrightarrow> (\<forall>t \<in> set tos. can_pour s src t \<noteq> Inr True)) \<and>
     (\<forall>f t. r = Some (f, t) \<longrightarrow> f = src \<and> t \<in> set tos \<and> can_pour s src t = Inr True \<and>
        (\<forall>t' \<in> set tos. can_pour s src t' = Inr True \<longrightarrow> t \<le> t'))"
  using assms(2,3)
proof (induction tos)
  case Nil
  show ?case by simp
next
  case (Cons a tos)
  from Cons.prems assms(1) obtain b where b: "can_pour s src a = Inr b"
    using can_pour_valid by fastforce
  show ?case
  proof (cases b)
    case True
    with b Cons.prems(2) show ?thesis by auto
  next
    case False
    from Cons.prems have "\<forall>t \<in> set tos. valid_index s t" "sorted tos" by simp_all
    from Cons.IH[OF this] obtain r where r: "scan_to s src tos = Inr r"
      "r = None \<longrightarrow> (\<forall>t \<in> set tos. can_pour s src t \<noteq> Inr True)"
      "\<forall>f t. r = Some (f, t) \<longrightarrow> f = src \<and> t \<in> set tos \<and> can_pour s src t = Inr True \<and>
        (\<forall>t' \<in> set tos. can_pour s src t' = Inr True \<longrightarrow> t \<le> t')"
      by blast
    have "scan_to s src (a # tos) = Inr r" using b False r(1) by simp
    moreover have "r = None \<longrightarrow> (\<forall>t \<in> set (a # tos). can_pour s src t \<noteq> Inr True)"
      using r(2) b False by simp
    moreover have "\<forall>f t. r = Some (f, t) \<longrightarrow> f = src \<and> t \<in> set (a # tos) \<and>
        can_pour s src t = Inr True \<and>
        (\<forall>t' \<in> set (a # tos). can_pour s src t' = Inr True \<longrightarrow> t \<le> t')"
      using r(3) b False by auto
    ultimately show ?thesis by blast
  qed
qed

lemma scan_from_char:
  assumes "\<forall>f \<in> set srcs. valid_index s f" "sorted srcs"
  shows "\<exists>r. scan_from s srcs = Inr r \<and>
     (r = None \<longrightarrow> (\<forall>f \<in> set srcs. \<forall>t \<in> set (range_py (length (tubes s))).
          can_pour s f t \<noteq> Inr True)) \<and>
     (\<forall>f t. r = Some (f, t) \<longrightarrow> f \<in> set srcs \<and> t \<in> set (range_py (length (tubes s))) \<and>
        can_pour s f t = Inr True \<and>
        (\<forall>f' \<in> set srcs. \<forall>t' \<in> set (range_py (length (tubes s))).
           can_pour s f' t' = Inr True \<longrightarrow> f < f' \<or> (f = f' \<and> t \<le> t')))"
  using assms
proof (induction srcs)
  case Nil
  show ?case by simp
next
  case (Cons a srcs)
  let ?R = "range_py (length (tubes s))"
  have va: "valid_index s a" using Cons.prems by simp
  have vR: "\<forall>t \<in> set ?R. valid_index s t" by (simp add: valid_range)
  from scan_to_char[OF va vR sorted_range_py] obtain r0 where r0: "scan_to s a ?R = Inr r0"
      "r0 = None \<longrightarrow> (\<forall>t \<in> set ?R. can_pour s a t \<noteq> Inr True)"
      "\<forall>f t. r0 = Some (f, t) \<longrightarrow> f = a \<and> t \<in> set ?R \<and> can_pour s a t = Inr True \<and>
        (\<forall>t' \<in> set ?R. can_pour s a t' = Inr True \<longrightarrow> t \<le> t')"
    by blast
  from Cons.prems have le: "\<forall>f' \<in> set srcs. a \<le> f'" by simp
  show ?case
  proof (cases r0)
    case None
    from Cons.prems have "\<forall>f \<in> set srcs. valid_index s f" "sorted srcs" by simp_all
    from Cons.IH[OF this] obtain r where r: "scan_from s srcs = Inr r"
      "r = None \<longrightarrow> (\<forall>f \<in> set srcs. \<forall>t \<in> set ?R. can_pour s f t \<noteq> Inr True)"
      "\<forall>f t. r = Some (f, t) \<longrightarrow> f \<in> set srcs \<and> t \<in> set ?R \<and>
        can_pour s f t = Inr True \<and>
        (\<forall>f' \<in> set srcs. \<forall>t' \<in> set ?R.
           can_pour s f' t' = Inr True \<longrightarrow> f < f' \<or> (f = f' \<and> t \<le> t'))"
      by blast
    have no: "\<forall>t \<in> set ?R. can_pour s a t \<noteq> Inr True" using r0(2) None by simp
    have "scan_from s (a # srcs) = Inr r" using r0(1) None r(1) by simp
    moreover have "r = None \<longrightarrow> (\<forall>f \<in> set (a # srcs). \<forall>t \<in> set ?R. can_pour s f t \<noteq> Inr True)"
      using r(2) no by simp
    moreover have "\<forall>f t. r = Some (f, t) \<longrightarrow> f \<in> set (a # srcs) \<and> t \<in> set ?R \<and>
        can_pour s f t = Inr True \<and>
        (\<forall>f' \<in> set (a # srcs). \<forall>t' \<in> set ?R.
           can_pour s f' t' = Inr True \<longrightarrow> f < f' \<or> (f = f' \<and> t \<le> t'))"
      using r(3) no by auto
    ultimately show ?thesis by blast
  next
    case (Some m)
    obtain f t where m: "m = (f, t)" by (cases m)
    from r0(3) Some m have ft: "f = a" "t \<in> set ?R" "can_pour s a t = Inr True"
      "\<forall>t' \<in> set ?R. can_pour s a t' = Inr True \<longrightarrow> t \<le> t'"
      by simp_all
    have res: "scan_from s (a # srcs) = Inr (Some (a, t))" using r0(1) Some m ft(1) by simp
    have min: "\<forall>f' \<in> set (a # srcs). \<forall>t' \<in> set ?R.
           can_pour s f' t' = Inr True \<longrightarrow> a < f' \<or> (a = f' \<and> t \<le> t')"
    proof (intro ballI impI)
      fix f' t' assume f': "f' \<in> set (a # srcs)" and t': "t' \<in> set ?R"
        and cp: "can_pour s f' t' = Inr True"
      show "a < f' \<or> (a = f' \<and> t \<le> t')"
      proof (cases "f' = a")
        case True
        then show ?thesis using ft(4) t' cp by simp
      next
        case False
        then show ?thesis using f' le by auto
      qed
    qed
    show ?thesis using res ft min by simp
  qed
qed


lemma backup_inner_char:
  assumes "\<forall>f \<in> set srcs. valid_index s f" "valid_index s to"
  shows "\<exists>r. backup_inner s to color srcs = Inr r \<and>
     (r = None \<longrightarrow> (\<forall>f \<in> set srcs.
         \<not> (can_pour s f to = Inr True \<and> last (tubes s ! nat f) = color))) \<and>
     (\<forall>f t. r = Some (f, t) \<longrightarrow> t = to \<and> f \<in> set srcs \<and> can_pour s f to = Inr True \<and>
         last (tubes s ! nat f) = color)"
  using assms(1)
proof (induction srcs)
  case Nil
  show ?case by simp
next
  case (Cons a srcs)
  from Cons.prems have va: "valid_index s a" and vs: "\<forall>f \<in> set srcs. valid_index s f"
    by simp_all
  from Cons.IH[OF vs] obtain r where r: "backup_inner s to color srcs = Inr r"
      "r = None \<longrightarrow> (\<forall>f \<in> set srcs.
         \<not> (can_pour s f to = Inr True \<and> last (tubes s ! nat f) = color))"
      "\<forall>f t. r = Some (f, t) \<longrightarrow> t = to \<and> f \<in> set srcs \<and> can_pour s f to = Inr True \<and>
         last (tubes s ! nat f) = color"
    by blast
  from can_pour_valid[OF va assms(2)] obtain b where b: "can_pour s a to = Inr b" by blast
  show ?case
  proof (cases "a \<noteq> to \<and> b \<and> last (tubes s ! nat a) = color")
    case True
    then have cp: "can_pour s a to = Inr True" using b by simp
    have "tubes s ! nat a \<noteq> []" using can_pour_valid_nonempty(1)[OF va cp] .
    then have "backup_inner s to color (a # srcs) = Inr (Some (a, to))"
      using True b by simp
    then show ?thesis using cp True by simp
  next
    case False
    have nb: "\<not> (can_pour s a to = Inr True \<and> last (tubes s ! nat a) = color)"
    proof
      assume h: "can_pour s a to = Inr True \<and> last (tubes s ! nat a) = color"
      then have "a \<noteq> to" using can_pour_valid_nonempty(2)[OF va] by blast
      with h b False show False by simp
    qed
    have "backup_inner s to color (a # srcs) = Inr r"
      using False b r(1) by auto
    moreover have "r = None \<longrightarrow> (\<forall>f \<in> set (a # srcs).
         \<not> (can_pour s f to = Inr True \<and> last (tubes s ! nat f) = color))"
      using r(2) nb by simp
    moreover have "\<forall>f t. r = Some (f, t) \<longrightarrow> t = to \<and> f \<in> set (a # srcs) \<and>
         can_pour s f to = Inr True \<and> last (tubes s ! nat f) = color"
      using r(3) by auto
    ultimately show ?thesis by blast
  qed
qed

lemma almost_complete_pourD:
  assumes "almost_complete_pour s f t"
  shows "valid_index s f" "valid_index s t" "can_pour s f t = Inr True"
    "int (length (tubes s ! nat t)) = tube_capacity s - 1"
    "list_all (\<lambda>c. c = last (tubes s ! nat f)) (tubes s ! nat t)"
  using assms by (simp_all add: almost_complete_pour_def legal_pour_def)

lemma backup_first_pass_char:
  assumes cap: "tube_capacity s \<noteq> 1"
    and es: "\<forall>(to, tube) \<in> set es. valid_index s to \<and> tube = tubes s ! nat to"
  shows "\<exists>r. backup_first_pass s es = Inr r \<and>
     (r = None \<longrightarrow> (\<forall>(to, tube) \<in> set es. \<forall>f. \<not> almost_complete_pour s f to)) \<and>
     (\<forall>f t. r = Some (f, t) \<longrightarrow> almost_complete_pour s f t)"
  using es
proof (induction es)
  case Nil
  show ?case by simp
next
  case (Cons e es)
  obtain to tube where e: "e = (to, tube)" by (cases e)
  from Cons.prems e have vt: "valid_index s to" and tube: "tube = tubes s ! nat to"
    and rest: "\<forall>(to, tube) \<in> set es. valid_index s to \<and> tube = tubes s ! nat to"
    by simp_all
  from Cons.IH[OF rest] obtain r where r: "backup_first_pass s es = Inr r"
      "r = None \<longrightarrow> (\<forall>(to, tube) \<in> set es. \<forall>f. \<not> almost_complete_pour s f to)"
      "\<forall>f t. r = Some (f, t) \<longrightarrow> almost_complete_pour s f t"
    by blast
  let ?R = "range_py (length (tubes s))"
  have vR: "\<forall>f \<in> set ?R. valid_index s f" by (simp add: valid_range)
  show ?case
  proof (cases "int (length tube) = tube_capacity s - 1")
    case False
    then have no: "\<forall>f. \<not> almost_complete_pour s f to"
      using tube almost_complete_pourD(4) by blast
    have "backup_first_pass s (e # es) = Inr r" using False e r(1) by simp
    moreover have "r = None \<longrightarrow> (\<forall>(to, tube) \<in> set (e # es). \<forall>f. \<not> almost_complete_pour s f to)"
      using r(2) no e by simp
    ultimately show ?thesis using r(3) by blast
  next
    case True
    with cap have "tube \<noteq> []" by auto
    then obtain color tl where tb: "tube = color # tl" by (cases tube) auto
    show ?thesis
    proof (cases "list_all (\<lambda>c. c = color) tube")
      case nall: False
      have no: "\<forall>f. \<not> almost_complete_pour s f to"
      proof (intro allI notI)
        fix f assume "almost_complete_pour s f to"
        then have la: "list_all (\<lambda>c. c = last (tubes s ! nat f)) tube"
          using almost_complete_pourD(5) tube by simp
        then have "color = last (tubes s ! nat f)" using tb by simp
        with la nall show False by simp
      qed
      have "backup_first_pass s (e # es) = Inr r" using True nall e tb r(1) by simp
      moreover have "r = None \<longrightarrow> (\<forall>(to, tube) \<in> set (e # es). \<forall>f. \<not> almost_complete_pour s f to)"
        using r(2) no e by simp
      ultimately show ?thesis using r(3) by blast
    next
      case all: True
      from backup_inner_char[OF vR vt, of color] obtain ri where ri:
        "backup_inner s to color ?R = Inr ri"
        "ri = None \<longrightarrow> (\<forall>f \<in> set ?R.
           \<not> (can_pour s f to = Inr True \<and> last (tubes s ! nat f) = color))"
        "\<forall>f t. ri = Some (f, t) \<longrightarrow> t = to \<and> f \<in> set ?R \<and> can_pour s f to = Inr True \<and>
           last (tubes s ! nat f) = color"
        by blast
      show ?thesis
      proof (cases ri)
        case None
        have no: "\<forall>f. \<not> almost_complete_pour s f to"
        proof (intro allI notI)
          fix f assume a: "almost_complete_pour s f to"
          then have la: "list_all (\<lambda>c. c = last (tubes s ! nat f)) tube"
            using almost_complete_pourD(5) tube by simp
          then have "last (tubes s ! nat f) = color" using tb by simp
          moreover have "f \<in> set ?R" using almost_complete_pourD(1)[OF a] by (simp add: valid_range)
          moreover have "can_pour s f to = Inr True" using almost_complete_pourD(3)[OF a] .
          ultimately show False using ri(2) None by blast
        qed
        have "backup_first_pass s (e # es) = Inr r" using True all e tb r(1) ri(1) None by simp
        moreover have "r = None \<longrightarrow> (\<forall>(to, tube) \<in> set (e # es). \<forall>f. \<not> almost_complete_pour s f to)"
          using r(2) no e by simp
        ultimately show ?thesis using r(3) by blast
      next
        case (Some m)
        obtain f t where m: "m = (f, t)" by (cases m)
        from ri(3) Some m have ft: "t = to" "f \<in> set ?R" "can_pour s f to = Inr True"
          "last (tubes s ! nat f) = color"
          by simp_all
        have acp: "almost_complete_pour s f to"
          unfolding almost_complete_pour_def legal_pour_def
          using ft vt True all tube by (simp add: valid_range)
        have "backup_first_pass s (e # es) = Inr (Some (f, to))"
          using True all e tb ri(1) Some m ft(1) by simp
        then show ?thesis using acp by simp
      qed
    qed
  qed
qed

lemma backup_example_move: "find_backup_move backup_example = Inr (Some (0, 1))"
  by code_simp

lemma backup_example_legal: "legal_pour backup_example 0 1"
  by code_simp

lemma backup_example_almost: "almost_complete_pour backup_example 0 1"
  by code_simp

text \<open>
  When no pour is legal: the planner finds no candidate, the backup move finds nothing,
  and one pass through the loop body of \<open>solve\<close> ends with \<open>break\<close>.
\<close>

lemma can_pour_cong:
  assumes a: "tubes s' = tubes s" and b: "tube_capacity s' = tube_capacity s"
  shows "can_pour s' f t = can_pour s f t"
  unfolding can_pour_def a b ..

lemma legal_pour_cong:
  assumes a: "tubes s' = tubes s" and b: "tube_capacity s' = tube_capacity s"
  shows "legal_pour s' f t = legal_pour s f t"
  unfolding legal_pour_def valid_index_def can_pour_cong[OF a b] a ..

lemma no_legal_False:
  assumes "\<not> (\<exists>f t. legal_pour s f t)" "valid_index s f" "valid_index s t"
  shows "can_pour s f t = Inr False"
proof -
  from can_pour_valid[OF assms(2,3)] obtain b where b: "can_pour s f t = Inr b" by blast
  with assms have "\<not> b" by (auto simp: legal_pour_def)
  with b show ?thesis by simp
qed

lemma find_backup_move_none:
  assumes cap: "tube_capacity s \<noteq> 1" and no: "\<not> (\<exists>f t. legal_pour s f t)"
  shows "find_backup_move s = Inr None"
proof -
  let ?R = "range_py (length (tubes s))"
  have es: "\<forall>(to, tube) \<in> set (enumerate_py (tubes s)). valid_index s to \<and> tube = tubes s ! nat to"
    by (auto simp: set_enumerate_py valid_index_def)
  from backup_first_pass_char[OF cap es] obtain r1 where r1:
      "backup_first_pass s (enumerate_py (tubes s)) = Inr r1"
      "\<forall>f t. r1 = Some (f, t) \<longrightarrow> almost_complete_pour s f t"
    by blast
  have "r1 = None"
  proof (cases r1)
    case (Some m)
    obtain f t where "m = (f, t)" by (cases m)
    with r1(2) Some have "legal_pour s f t" by (simp add: almost_complete_pour_def)
    with no show ?thesis by blast
  qed simp
  have vR: "\<forall>f \<in> set ?R. valid_index s f" by (simp add: valid_range)
  from scan_from_char[OF vR sorted_range_py] obtain r2 where r2:
      "scan_from s ?R = Inr r2"
      "\<forall>f t. r2 = Some (f, t) \<longrightarrow> f \<in> set ?R \<and> t \<in> set ?R \<and> can_pour s f t = Inr True"
    by blast
  have "r2 = None"
  proof (cases r2)
    case (Some m)
    obtain f t where "m = (f, t)" by (cases m)
    with r2(2) Some have "legal_pour s f t" by (simp add: legal_pour_def valid_range)
    with no show ?thesis by blast
  qed simp
  show ?thesis
    using r1(1) r2(1) \<open>r1 = None\<close> \<open>r2 = None\<close> by (simp add: find_backup_move_def)
qed

lemma gather_moves_none:
  assumes no: "\<not> (\<exists>f t. legal_pour s f t)" and "valid_index s src"
    and "\<forall>t \<in> set tos. valid_index s t"
  shows "gather_moves s src ty prio tos = Inr []"
  using assms(3)
proof (induction tos)
  case Nil
  show ?case by simp
next
  case (Cons a tos)
  then have "can_pour s src a = Inr False"
    using no_legal_False[OF no assms(2)] by simp
  with Cons show ?case by auto
qed

lemma merge_inner_none:
  assumes no: "\<not> (\<exists>f t. legal_pour s f t)" and "valid_index s src"
    and "\<forall>t \<in> set tos. valid_index s t"
  shows "merge_inner s src tos = Inr []"
  using assms(3)
proof (induction tos)
  case Nil
  show ?case by simp
next
  case (Cons a tos)
  then have "can_pour s src a = Inr False"
    using no_legal_False[OF no assms(2)] by simp
  with Cons show ?case by simp
qed

lemma merge_outer_none:
  assumes no: "\<not> (\<exists>f t. legal_pour s f t)" and "\<forall>t \<in> set srcs. valid_index s t"
  shows "merge_outer s srcs = Inr []"
  using assms(2)
proof (induction srcs)
  case Nil
  show ?case by simp
next
  case (Cons a srcs)
  then show ?case using merge_inner_none[OF no, of a srcs] by simp
qed

lemma moves_for_position_none:
  assumes no: "\<not> (\<exists>f t. legal_pour s f t)" and "valid_index s (tube_index pos)"
    and "\<forall>t \<in> set es. valid_index s t" "\<forall>t \<in> set ws. valid_index s t"
  shows "moves_for_position s es ws pos = Inr []"
  using gather_moves_none[OF no assms(2) assms(3)] gather_moves_none[OF no assms(2) assms(4)]
  by (simp add: moves_for_position_def)

lemma moves_for_positions_none:
  assumes no: "\<not> (\<exists>f t. legal_pour s f t)"
    and "\<forall>t \<in> set es. valid_index s t" "\<forall>t \<in> set ws. valid_index s t"
    and "\<forall>pos \<in> set ps. valid_index s (tube_index pos)"
  shows "moves_for_positions s es ws ps = Inr []"
  using assms(4)
proof (induction ps)
  case Nil
  show ?case by simp
next
  case (Cons a ps)
  then show ?case using moves_for_position_none[OF no _ assms(2,3), of a] by simp
qed

lemma filter_enumerate_valid:
  "\<forall>i \<in> set (map fst (filter P (enumerate_py (tubes s)))). valid_index s i"
  by (auto simp: set_enumerate_py valid_index_def)

lemma target_positions_valid:
  "\<forall>pos \<in> set (target_positions_of (tubes s) c). valid_index s (tube_index pos)"
  by (auto simp: target_positions_of_def set_enumerate_py valid_index_def split: if_splits)

lemma find_moves_for_color_none:
  assumes no: "\<not> (\<exists>f t. legal_pour s f t)"
  shows "find_moves_for_color s c = Inr []"
proof -
  have 1: "\<forall>t \<in> set (get_empty_tubes s). valid_index s t"
    unfolding get_empty_tubes_def by (rule filter_enumerate_valid)
  have 2: "\<forall>t \<in> set (get_tubes_with_space s). valid_index s t"
    unfolding get_tubes_with_space_def by (rule filter_enumerate_valid)
  have 3: "\<forall>pos \<in> set (sort_key (\<lambda>p. - depth p) (target_positions_of (tubes s) c)).
      valid_index s (tube_index pos)"
    using target_positions_valid by simp
  have m: "moves_for_positions s (get_empty_tubes s) (get_tubes_with_space s)
      (sort_key (\<lambda>p. - depth p) (target_positions_of (tubes s) c)) = Inr []"
    by (rule moves_for_positions_none[OF no 1 2 3])
  have g: "merge_outer s (map fst (filter (\<lambda>(i, tube). tube \<noteq> [] \<and> last tube = c)
      (enumerate_py (tubes s)))) = Inr []"
    by (rule merge_outer_none[OF no filter_enumerate_valid])
  show ?thesis
    by (simp add: find_moves_for_color_def Let_def m g)
qed

lemma is_solved_loop_cong:
  assumes "tube_capacity s' = tube_capacity s" "total_colors s' = total_colors s"
    "empty_tubes_count s' = empty_tubes_count s"
  shows "is_solved_loop s' tbs c e = is_solved_loop s tbs c e"
  by (induction tbs arbitrary: c e) (simp_all add: assms)

lemma is_solved_cong:
  assumes "tubes s' = tubes s" "tube_capacity s' = tube_capacity s"
    "total_colors s' = total_colors s" "empty_tubes_count s' = empty_tubes_count s"
  shows "is_solved s' = is_solved s"
  unfolding is_solved_def assms(1) by (rule is_solved_loop_cong[OF assms(2-4)])

lemma backup_or_break_stuck:
  assumes "tube_capacity s \<noteq> 1" "\<not> (\<exists>f t. legal_pour s f t)"
  shows "backup_or_break s = Inr (Break s)"
  by (simp add: backup_or_break_def find_backup_move_none[OF assms])

lemma solve_step_stuck:
  assumes cap: "tube_capacity s \<noteq> 1" and no: "\<not> (\<exists>f t. legal_pour s f t)"
    and vis: "visited_states s = {}"
  shows "solve_step rnd iter s mc = Inr (Break (s\<lparr>visited_states := {get_state_hash s}\<rparr>))"
proof -
  let ?s1 = "s\<lparr>visited_states := insert (get_state_hash s) (visited_states s)\<rparr>"
  have cap1: "tube_capacity ?s1 \<noteq> 1" using cap by simp
  have "legal_pour ?s1 f t = legal_pour s f t" for f t
    by (rule legal_pour_cong) simp_all
  then have no1: "\<not> (\<exists>f t. legal_pour ?s1 f t)" using no by simp
  have b: "backup_or_break ?s1 = Inr (Break ?s1)"
    by (rule backup_or_break_stuck[OF cap1 no1])
  have m: "find_moves_for_color ?s1 c = Inr []" for c
    by (rule find_moves_for_color_none[OF no1])
  have "solve_step rnd iter s mc = Inr (Break ?s1)"
    unfolding solve_step_def Let_def
    using vis b m by (simp split: option.split)
  then show ?thesis using vis by simp
qed

lemma solve_stuck_general:
  assumes cap: "tube_capacity s \<noteq> 1"
    and ns: "\<not> is_solved (s\<lparr>tubes := original_tubes s, moves := [], visited_states := {}\<rparr>)"
    and no: "\<not> (\<exists>f t. legal_pour (s\<lparr>tubes := original_tubes s, moves := [], visited_states := {}\<rparr>) f t)"
  shows "\<exists>s'. solve rnd iter s = Some (Inr (False, s')) \<and> moves s' = [] \<and>
               tubes s' = original_tubes s"
proof -
  let ?s0 = "s\<lparr>tubes := original_tubes s, moves := [], visited_states := {}\<rparr>"
  let ?s1 = "?s0\<lparr>visited_states := {get_state_hash ?s0}\<rparr>"
  have cap0: "tube_capacity ?s0 \<noteq> 1" using cap by simp
  have st: "solve_step rnd iter ?s0 0 = Inr (Break ?s1)"
    by (rule solve_step_stuck[OF cap0 no]) simp
  have loop: "solve_loop rnd iter ?s0 0 = Some (Inr ?s1)"
    by (subst solve_loop.simps) (simp add: ns st)
  have "is_solved ?s1 = is_solved ?s0" by (rule is_solved_cong) simp_all
  then have ns1: "\<not> is_solved ?s1" using ns by simp
  have "solve rnd iter s = Some (Inr (False, ?s1))"
    unfolding solve_def Let_def loop using ns1 by simp
  then show ?thesis by simp
qed

lemma stuck_example_unsolved: "\<not> is_solved stuck_example"
  by (simp add: stuck_example_def is_solved_def TubeSolver_def)

lemma stuck_example_no_legal: "\<not> (\<exists>f t. legal_pour stuck_example f t)"
proof
  assume "\<exists>f t. legal_pour stuck_example f t"
  then obtain f t where cp: "can_pour stuck_example f t = Inr True"
    by (auto simp: legal_pour_def)
  then obtain b where b: "b < length (tubes stuck_example)"
    "int (length (tubes stuck_example ! b)) < tube_capacity stuck_example"
    by (elim can_pour_TrueD)
  from b(1) have "b = 0 \<or> b = 1 \<or> b = 2"
    by (auto simp: stuck_example_def TubeSolver_def)
  with b(2) show False
    by (auto simp: stuck_example_def TubeSolver_def)
qed

text \<open>
  The analysis, related to the notions of the specification: the entries of a colour
  carry its depths and top flags, their number is the unit count, and the loop of
  \<open>find_target_color\<close> returns the first entry of highest score among the collectible
  ones.
\<close>

lemma concat_map_if:
  "concat (map (\<lambda>x. if P x then [g x] else []) xs) = map g (filter P xs)"
  by (induction xs) auto

lemma map_snd_enumerate_py: "map snd (enumerate_py xs) = xs"
  by (simp add: enumerate_py_def range_py_def)

lemma positions_of_entries:
  "positions_of tbs c = concat (map (\<lambda>(ti, tube). tube_entries ti tube c) (enumerate_py tbs))"
proof -
  have "concat (map (\<lambda>(pos, tube_color).
         if tube_color = c
         then [\<lparr> tube_index = ti, position = pos,
                 depth = int (length tube) - pos - 1,
                 is_top = (pos = int (length tube) - 1) \<rparr>]
         else []) (enumerate_py tube)) = tube_entries ti tube c" for ti tube
    unfolding enumerate_py_map tube_entries_def
    by (simp add: comp_def concat_map_if)
  then show ?thesis unfolding positions_of_def by simp
qed

lemma map_depth_entries: "map depth (tube_entries ti tube c) = tube_depths tube c"
  by (simp add: tube_entries_def tube_depths_def comp_def)

lemma map_concat_pairs:
  assumes "\<And>ti tube. map g (F ti tube) = G tube"
  shows "map g (concat (map (\<lambda>(ti, tube). F ti tube) es)) = concat (map G (map snd es))"
  by (induction es) (auto simp: assms)

lemma map_concat_enumerate:
  assumes "\<And>ti tube. map g (F ti tube) = G tube"
  shows "map g (concat (map (\<lambda>(ti, tube). F ti tube) (enumerate_py tbs))) = concat (map G tbs)"
  using map_concat_pairs[of g F G "enumerate_py tbs", OF assms]
  by (simp add: map_snd_enumerate_py)

lemma map_depth_positions:
  "map depth (positions_of tbs c) = concat (map (\<lambda>tb. tube_depths tb c) tbs)"
  unfolding positions_of_entries
  by (rule map_concat_enumerate) (rule map_depth_entries)

lemma length_filter_index:
  "length (filter (\<lambda>p. tb ! p = c) [0..<length tb]) = count_list tb c"
proof -
  have "filter (\<lambda>x. x = c) (map (\<lambda>p. tb ! p) [0..<length tb])
      = map (\<lambda>p. tb ! p) (filter (\<lambda>p. tb ! p = c) [0..<length tb])"
    by (simp add: filter_map comp_def)
  then have "length (filter (\<lambda>p. tb ! p = c) [0..<length tb]) = length (filter (\<lambda>x. x = c) tb)"
    by (metis length_map map_nth)
  also have "\<dots> = count_list tb c"
    by (induction tb) auto
  finally show ?thesis .
qed

lemma length_tube_depths: "length (tube_depths tb c) = count_list tb c"
  by (simp add: tube_depths_def length_filter_index)

lemma count_list_concat:
  "count_list (concat tbs) c = length (concat (map (\<lambda>tb. tube_depths tb c) tbs))"
  by (induction tbs) (simp_all add: length_tube_depths)

lemma length_positions_of: "length (positions_of tbs c) = count_list (concat tbs) c"
  by (metis count_list_concat length_map map_depth_positions)


lemma length_top_entries:
  "length (filter is_top (tube_entries ti tube c)) = (if tube \<noteq> [] \<and> last tube = c then 1 else 0)"
proof (cases tube rule: rev_cases)
  case Nil
  then show ?thesis by (simp add: tube_entries_def)
next
  case (snoc ys y)
  let ?m = "length ys"
  let ?Q = "\<lambda>p. int p = int (length tube) - 1 \<and> tube ! p = c"
  have len: "length tube = Suc ?m" using snoc by simp
  have "filter is_top (tube_entries ti tube c)
      = map (\<lambda>p. \<lparr> tube_index = ti, position = int p,
                 depth = int (length tube) - int p - 1,
                 is_top = (int p = int (length tube) - 1) \<rparr>) (filter ?Q [0..<length tube])"
    unfolding tube_entries_def by (simp add: filter_map comp_def conj_commute)
  then have 1: "length (filter is_top (tube_entries ti tube c)) = length (filter ?Q [0..<length tube])"
    by simp
  have "filter ?Q [0..<?m] = []"
    unfolding filter_empty_conv using len by auto
  then have "filter ?Q [0..<length tube] = (if ?Q ?m then [?m] else [])"
    unfolding len by simp
  moreover have "?Q ?m \<longleftrightarrow> y = c" using snoc by simp
  ultimately have "length (filter ?Q [0..<length tube]) = (if y = c then 1 else 0)" by simp
  with 1 snoc show ?thesis by simp
qed

lemma length_top_pairs:
  "length (filter is_top (concat (map (\<lambda>(ti, tube). tube_entries ti tube c) es)))
     = length (filter (\<lambda>tb. tb \<noteq> [] \<and> last tb = c) (map snd es))"
proof (induction es)
  case Nil
  show ?case by simp
next
  case (Cons e es)
  let ?F = "\<lambda>(ti, tube). tube_entries ti tube c"
  let ?Q = "\<lambda>tb. tb \<noteq> [] \<and> last tb = c"
  obtain ti tube where e: "e = (ti, tube)" by (cases e)
  have "length (filter is_top (concat (map ?F (e # es))))
      = length (filter is_top (tube_entries ti tube c))
        + length (filter is_top (concat (map ?F es)))"
    by (simp add: e)
  also have "\<dots> = (if ?Q tube then 1 else 0) + length (filter ?Q (map snd es))"
    by (simp only: length_top_entries Cons.IH)
  also have "\<dots> = length (filter ?Q (map snd (e # es)))"
    by (simp add: e)
  finally show ?case .
qed

lemma length_top_positions:
  "length (filter is_top (positions_of tbs c)) = length (filter (\<lambda>tb. tb \<noteq> [] \<and> last tb = c) tbs)"
  unfolding positions_of_entries length_top_pairs map_snd_enumerate_py ..

lemma length_filter_sort_key: "length (filter P (sort_key f xs)) = length (filter P xs)"
  by (metis mset_filter mset_sort size_mset)

lemma tube_depths_nonneg: "d \<in> set (tube_depths tb c) \<Longrightarrow> 0 \<le> d"
  by (auto simp: tube_depths_def)

lemma depths_nonneg: "d \<in> set (map depth (positions_of tbs c)) \<Longrightarrow> 0 \<le> d"
  unfolding map_depth_positions using tube_depths_nonneg by auto

text \<open>The entry that \<open>analyze_color\<close> builds.\<close>

lemma analyze_color_cases:
  assumes "(c', d) \<in> set (analyze_color s c)"
  shows "c' = c" and "int (unit_count s c) = tube_capacity s"
    and "is_collectible d \<longleftrightarrow> 0 < top_count s c"
    and "is_collectible d \<Longrightarrow> score_of d = target_score s c"
    and "is_collectible d \<Longrightarrow> 0 \<le> score_of d"
proof -
  let ?ps = "positions_of (tubes s) c"
  let ?sp = "sort_key (\<lambda>p. - depth p) ?ps"
  from assms have cnt: "int (length ?ps) = tube_capacity s" and c: "c' = c"
    and d: "d = \<lparr> total_count = int (length ?ps), positions = ?sp,
                 is_collectible = list_ex is_top ?sp,
                 max_depth = (if ?sp \<noteq> [] then Max (set (map depth ?sp)) else 0) \<rparr>"
    by (auto simp: analyze_color_def Let_def split: if_splits)
  show "c' = c" by (rule c)
  show "int (unit_count s c) = tube_capacity s"
    using cnt by (simp add: unit_count_def length_positions_of)
  have tops: "length (filter is_top ?sp) = top_count s c"
    by (simp add: length_filter_sort_key length_top_positions top_count_def)
  have ic: "is_collectible d = list_ex is_top ?sp" by (subst d) simp
  have "list_ex is_top ?sp \<longleftrightarrow> 0 < length (filter is_top ?sp)"
    by (simp add: list_ex_iff filter_empty_conv)
  then have col: "is_collectible d \<longleftrightarrow> 0 < top_count s c"
    unfolding ic tops .
  show "is_collectible d \<longleftrightarrow> 0 < top_count s c" by (rule col)
  have dset: "set (map depth ?sp) = set (concat (map (\<lambda>tb. tube_depths tb c) (tubes s)))"
    using map_depth_positions[of "tubes s" c] by (metis set_map set_sort)
  {
    assume "is_collectible d"
    with col tops have ne: "?sp \<noteq> []" by auto
    then have md: "max_depth d = colour_max_depth s c"
      using d dset by (simp add: colour_max_depth_def)
    have pos: "positions d = ?sp" using d by simp
    show "score_of d = target_score s c"
      unfolding score_of_def Let_def pos tops md target_score_def by simp
    have "set (map depth ?sp) \<noteq> {}" using ne by (metis map_is_Nil_conv set_empty)
    then have "Max (set (map depth ?sp)) \<in> set (map depth ?sp)"
      by (intro Max_in) simp_all
    then have "Max (set (map depth ?sp)) \<in> set (map depth ?ps)"
      by simp
    then have "0 \<le> Max (set (map depth ?sp))" by (rule depths_nonneg)
    then have "0 \<le> max_depth d" using d ne by simp
    then show "0 \<le> score_of d"
      unfolding score_of_def Let_def by simp
  }
qed

lemma analyze_color_present:
  assumes "int (unit_count s c) = tube_capacity s"
  shows "\<exists>d. (c, d) \<in> set (analyze_color s c)"
  using assms by (simp add: analyze_color_def Let_def unit_count_def length_positions_of)


lemma find_target_loop_none:
  assumes "\<forall>(c, d) \<in> set al. is_collectible d \<longrightarrow> score_of d \<le> bs"
  shows "find_target_loop al bc bs = bc"
  using assms by (induction al arbitrary: bc bs) auto

lemma find_target_loop_some:
  assumes "\<exists>(c, d) \<in> set al. is_collectible d \<and> bs < score_of d"
  shows "\<exists>c d. (c, d) \<in> set al \<and> is_collectible d \<and> find_target_loop al bc bs = Some c \<and>
     bs < score_of d \<and> (\<forall>(c', d') \<in> set al. is_collectible d' \<longrightarrow> score_of d' \<le> score_of d)"
  using assms
proof (induction al arbitrary: bc bs)
  case Nil
  then show ?case by simp
next
  case (Cons e al)
  obtain c0 d0 where e: "e = (c0, d0)" by (cases e)
  show ?case
  proof (cases "is_collectible d0 \<and> bs < score_of d0")
    case better: True
    then have step: "find_target_loop (e # al) bc bs = find_target_loop al (Some c0) (score_of d0)"
      by (simp add: e)
    show ?thesis
    proof (cases "\<exists>(c, d) \<in> set al. is_collectible d \<and> score_of d0 < score_of d")
      case True
      from Cons.IH[OF True, of "Some c0"] obtain c d where cd: "(c, d) \<in> set al" "is_collectible d"
        "find_target_loop al (Some c0) (score_of d0) = Some c" "score_of d0 < score_of d"
        "\<forall>(c', d') \<in> set al. is_collectible d' \<longrightarrow> score_of d' \<le> score_of d"
        by blast
      have "\<forall>(c', d') \<in> set (e # al). is_collectible d' \<longrightarrow> score_of d' \<le> score_of d"
        using cd(4,5) e by auto
      moreover have "bs < score_of d" using better cd(4) by simp
      ultimately show ?thesis using cd(1,2,3) step by (intro exI[of _ c] exI[of _ d]) simp
    next
      case False
      then have le: "\<forall>(c, d) \<in> set al. is_collectible d \<longrightarrow> score_of d \<le> score_of d0"
        by fastforce
      have "find_target_loop al (Some c0) (score_of d0) = Some c0"
        by (rule find_target_loop_none[OF le])
      moreover have "\<forall>(c', d') \<in> set (e # al). is_collectible d' \<longrightarrow> score_of d' \<le> score_of d0"
        using le e by auto
      ultimately show ?thesis using better step e by (intro exI[of _ c0] exI[of _ d0]) simp
    qed
  next
    case worse: False
    then have step: "find_target_loop (e # al) bc bs = find_target_loop al bc bs"
      by (auto simp: e)
    from Cons.prems worse e have ex: "\<exists>(c, d) \<in> set al. is_collectible d \<and> bs < score_of d"
      by auto
    from Cons.IH[OF ex, of bc] obtain c d where cd: "(c, d) \<in> set al" "is_collectible d"
        "find_target_loop al bc bs = Some c" "bs < score_of d"
        "\<forall>(c', d') \<in> set al. is_collectible d' \<longrightarrow> score_of d' \<le> score_of d"
      by blast
    have "is_collectible d0 \<longrightarrow> score_of d0 \<le> score_of d" using worse cd(4) by auto
    then have "\<forall>(c', d') \<in> set (e # al). is_collectible d' \<longrightarrow> score_of d' \<le> score_of d"
      using cd(5) e by auto
    then show ?thesis using cd(1-4) step by (intro exI[of _ c] exI[of _ d]) simp
  qed
qed

lemma analyze_colors_mem:
  "(c, d) \<in> set (analyze_colors all_colors s) \<longleftrightarrow>
     c \<in> set all_colors \<and> (c, d) \<in> set (analyze_color s c)"
  unfolding analyze_colors_def using analyze_color_cases(1) by fastforce

lemma collectible_in_order:
  assumes "colour_order s all_colors" "collectible s c"
  shows "c \<in> set all_colors"
proof -
  from assms(2) have "filter (\<lambda>tb. tb \<noteq> [] \<and> last tb = c) (tubes s) \<noteq> []"
    by (auto simp: collectible_def top_count_def)
  then obtain tb where "tb \<in> set (tubes s)" "tb \<noteq> []" "last tb = c"
    by (auto simp: filter_empty_conv)
  then have "c \<in> (\<Union>tb \<in> set (tubes s). set tb)" using last_in_set by blast
  then show ?thesis using assms(1) by (simp add: colour_order_def fold_union_colors)
qed

lemma target_example_order: "colour_order target_example [2, 1]"
  by code_simp

lemma target_example_collectible: "collectible target_example 1"
  by code_simp

lemma target_example_value: "find_target_color [2, 1] target_example = Some 1"
  by code_simp

lemma target_example_scores: "target_score target_example 1 = 40 \<and> target_score target_example 2 = 20"
  by code_simp

section \<open>Run-pour correctness\<close>

text \<open>
  Claim C1. Let the indices \<open>f\<close> and \<open>t\<close> denote two different tubes, at the positions
  \<open>a\<close> and \<open>b\<close> of the list (for indices in \<open>0 \<dots> len - 1\<close> these are \<open>f\<close> and \<open>t\<close>
  themselves), and let \<open>can_pour\<close> hold. Then \<open>pour\<close> returns true and moves \<open>n\<close> units,
  where \<open>n\<close> is the smaller of the maximal same-colour run at the top of the source and
  the free space of the destination (capacity minus length); \<open>n\<close> is at least one. The
  source keeps its lower part and the destination receives the upper \<open>n\<close> units in
  their order. In particular, when the top \<open>k\<close> units of the source have one colour
  \<open>c\<close>, the unit below them (if any) has another colour, and the destination has at
  least \<open>k\<close> free places, then exactly \<open>k\<close> units are moved: the destination gains \<open>k\<close>
  units of colour \<open>c\<close>, the source loses \<open>k\<close> units, and the source is afterwards empty
  or shows a top unit of a colour other than \<open>c\<close>.
\<close>

theorem pour_run_correct:
  assumes a: "py_index (tubes s) f = Some a" and b: "py_index (tubes s) t = Some b"
    and ab: "a \<noteq> b" and cp: "can_pour s f t = Inr True"
  shows "\<exists>s'. pour s f t = Inr (True, s') \<and>
    (let src = tubes s ! a; dst = tubes s ! b;
         n = min (top_run src) (nat (tube_capacity s - int (length dst)))
     in 1 \<le> n \<and> n \<le> length src \<and>
        tubes s' ! a = take (length src - n) src \<and>
        tubes s' ! b = dst @ drop (length src - n) src \<and>
        (\<forall>k c. top_units src k c \<and> int k \<le> tube_capacity s - int (length dst) \<longrightarrow>
           n = k \<and> tubes s' ! b = dst @ replicate k c \<and>
           length (tubes s' ! a) = length src - k \<and>
           (tubes s' ! a = [] \<or> last (tubes s' ! a) \<noteq> c)))"
proof -
  have la: "a < length (tubes s)" and lb: "b < length (tubes s)"
    using a b py_index_less by auto
  let ?src = "tubes s ! a" and ?dst = "tubes s ! b"
  let ?n = "pour_amount s a b"
  define s' where "s' = s\<lparr>tubes :=
            ((tubes s)[a := take (length ?src - ?n) ?src])
              [b := ((tubes s)[a := take (length ?src - ?n) ?src]) ! b
                     @ drop (length ?src - ?n) ?src],
            moves := moves s @ [(f, t)]\<rparr>"
  have p: "pour s f t = Inr (True, s')"
    unfolding s'_def by (rule pour_success[OF cp a b])
  from cp a b have sne: "?src \<noteq> []" and sp: "int (length ?dst) < tube_capacity s"
    by (auto elim!: can_pour_TrueD)
  note bd = pour_amount_bounds[OF sne sp]
  have ta: "tubes s' ! a = take (length ?src - ?n) ?src"
    unfolding s'_def using ab la lb by simp
  have tb: "tubes s' ! b = ?dst @ drop (length ?src - ?n) ?src"
    unfolding s'_def using ab la lb by simp
  have run: "?n = k \<and> tubes s' ! b = ?dst @ replicate k c \<and>
           length (tubes s' ! a) = length ?src - k \<and>
           (tubes s' ! a = [] \<or> last (tubes s' ! a) \<noteq> c)"
    if tu: "top_units ?src k c" and room: "int k \<le> tube_capacity s - int (length ?dst)" for k c
  proof -
    note r = top_units_run[OF tu]
    have n: "?n = k" using r(1) room unfolding pour_amount_def by linarith
    have "drop (length ?src - k) ?src = replicate k c"
      using tu by (simp add: top_units_def)
    then show ?thesis using ta tb r(3) unfolding n by simp
  qed
  have "1 \<le> ?n \<and> ?n \<le> length ?src \<and>
        tubes s' ! a = take (length ?src - ?n) ?src \<and>
        tubes s' ! b = ?dst @ drop (length ?src - ?n) ?src \<and>
        (\<forall>k c. top_units ?src k c \<and> int k \<le> tube_capacity s - int (length ?dst) \<longrightarrow>
           ?n = k \<and> tubes s' ! b = ?dst @ replicate k c \<and>
           length (tubes s' ! a) = length ?src - k \<and>
           (tubes s' ! a = [] \<or> last (tubes s' ! a) \<noteq> c))"
    using bd(1,2) ta tb run by blast
  then show ?thesis
    using p unfolding Let_def pour_amount_def by blast
qed

theorem pour_run_correct_witness:
  "py_index (tubes (TubeSolver [[1, 2, 2], [2]])) 0 = Some 0 \<and>
   py_index (tubes (TubeSolver [[1, 2, 2], [2]])) 1 = Some 1 \<and>
   can_pour (TubeSolver [[1, 2, 2], [2]]) 0 1 = Inr True \<and>
   top_units [1, 2, 2] 2 2 \<and>
   (\<exists>s'. pour (TubeSolver [[1, 2, 2], [2]]) 0 1 = Inr (True, s') \<and>
         tubes s' ! 0 = [1] \<and> tubes s' ! 1 = [2, 2, 2] \<and> last (tubes s' ! 0) \<noteq> 2)"
proof -
  let ?s = "TubeSolver [[1, 2, 2], [2]]"
  have a: "py_index (tubes ?s) 0 = Some 0" and b: "py_index (tubes ?s) 1 = Some 1"
    by (simp_all add: py_index_def TubeSolver_def)
  have tu: "top_units (tubes ?s ! 0) 2 2"
    by (simp add: top_units_def TubeSolver_def numeral_2_eq_2)
  have room: "int 2 \<le> tube_capacity ?s - int (length (tubes ?s ! 1))"
    by (simp add: TubeSolver_def)
  have "\<exists>s'. pour ?s 0 1 = Inr (True, s') \<and>
    (let src = tubes ?s ! 0; dst = tubes ?s ! 1;
         n = min (top_run src) (nat (tube_capacity ?s - int (length dst)))
     in 1 \<le> n \<and> n \<le> length src \<and>
        tubes s' ! 0 = take (length src - n) src \<and>
        tubes s' ! 1 = dst @ drop (length src - n) src \<and>
        (\<forall>k c. top_units src k c \<and> int k \<le> tube_capacity ?s - int (length dst) \<longrightarrow>
           n = k \<and> tubes s' ! 1 = dst @ replicate k c \<and>
           length (tubes s' ! 0) = length src - k \<and>
           (tubes s' ! 0 = [] \<or> last (tubes s' ! 0) \<noteq> c)))"
    by (rule pour_run_correct[OF a b _ can_pour_example]) simp
  then obtain s' where p: "pour ?s 0 1 = Inr (True, s')"
    and rest: "\<forall>k c. top_units (tubes ?s ! 0) k c \<and>
         int k \<le> tube_capacity ?s - int (length (tubes ?s ! 1)) \<longrightarrow>
         min (top_run (tubes ?s ! 0)) (nat (tube_capacity ?s - int (length (tubes ?s ! 1)))) = k \<and>
         tubes s' ! 1 = tubes ?s ! 1 @ replicate k c \<and>
         length (tubes s' ! 0) = length (tubes ?s ! 0) - k \<and>
         (tubes s' ! 0 = [] \<or> last (tubes s' ! 0) \<noteq> c)"
    unfolding Let_def by blast
  from rest tu room have
    "tubes s' ! 1 = tubes ?s ! 1 @ replicate 2 2 \<and>
     length (tubes s' ! 0) = length (tubes ?s ! 0) - 2 \<and>
     (tubes s' ! 0 = [] \<or> last (tubes s' ! 0) \<noteq> 2)"
    by blast
  then have b': "tubes s' ! 1 = [2, 2, 2]" and l: "length (tubes s' ! 0) = 1"
    and c: "tubes s' ! 0 = [] \<or> last (tubes s' ! 0) \<noteq> 2"
    by (simp_all add: TubeSolver_def numeral_2_eq_2)
  from l c have c': "last (tubes s' ! 0) \<noteq> 2" by auto
  from p pour_example have "s' = ?s\<lparr>tubes := [[1], [2, 2, 2]], moves := [(0, 1)]\<rparr>" by simp
  then have a': "tubes s' ! 0 = [1]" by simp
  have tu': "top_units [1, 2, 2] 2 2"
    by (simp add: top_units_def numeral_2_eq_2)
  show ?thesis using a b can_pour_example tu' p a' b' c' by blast
qed

section \<open>Units are conserved and no tube overflows\<close>

text \<open>
  Claim C2. In every state reached from the constructor by calls of \<open>pour\<close> (with any
  Python ints as indices, accepted or refused), the multiset of units over all tubes is
  the multiset of the original configuration. The number of tubes is unchanged, and no
  pour makes a tube longer than the capacity 4: each tube is at most as long as the
  larger of 4 and its own length in the original configuration. Hence, when no tube of
  the original configuration is longer than 4 (the input the specification describes),
  no tube of the reached state is longer than 4.
\<close>

theorem units_and_capacity_invariant:
  assumes "reachable ts s"
  shows "mset (concat (tubes s)) = mset (concat ts) \<and>
         length (tubes s) = length ts \<and>
         (\<forall>i < length ts. length (tubes s ! i) \<le> max 4 (length (ts ! i))) \<and>
         ((\<forall>tb \<in> set ts. length tb \<le> 4) \<longrightarrow> (\<forall>tb \<in> set (tubes s). length tb \<le> 4))"
proof -
  note b = reachable_bound[OF assms]
  have ix: "length (tubes s ! i) \<le> max 4 (length (ts ! i))" if "i < length ts" for i
    using b that by (auto simp: max_def split: if_splits)
  have "\<forall>tb \<in> set (tubes s). length tb \<le> 4" if w: "\<forall>tb \<in> set ts. length tb \<le> 4"
  proof
    fix tb assume "tb \<in> set (tubes s)"
    then obtain i where i: "i < length ts" and tb: "tb = tubes s ! i"
      using b by (auto simp: in_set_conv_nth)
    from w i have "length (ts ! i) \<le> 4" by simp
    with ix[OF i] show "length tb \<le> 4" unfolding tb by simp
  qed
  with reachable_units[OF assms] b ix show ?thesis by blast
qed

theorem units_and_capacity_invariant_witness:
  "reachable [[1, 2, 2], [2]]
     ((TubeSolver [[1, 2, 2], [2]])\<lparr>tubes := [[1], [2, 2, 2]], moves := [(0, 1)]\<rparr>) \<and>
   list_all (\<lambda>tb. length tb \<le> 4) [[1, 2, 2], [2::int]] \<and>
   mset (concat [[1], [2, 2, 2::int]]) = mset (concat [[1, 2, 2], [2]]) \<and>
   list_all (\<lambda>tb. length tb \<le> 4) [[1], [2, 2, 2::int]]"
proof -
  have r: "reachable [[1, 2, 2], [2]]
     ((TubeSolver [[1, 2, 2], [2]])\<lparr>tubes := [[1], [2, 2, 2]], moves := [(0, 1)]\<rparr>)"
    by (rule reachable_pour[OF reachable_init pour_example])
  show ?thesis
    using r units_and_capacity_invariant[OF r] by simp
qed

section \<open>Refusal without mutation\<close>

text \<open>
  Claim C4. Whenever \<open>can_pour\<close> answers false for a pair of indices (any Python ints),
  \<open>pour\<close> returns false and the state after the call is the state before it: every tube,
  the move trace and every other field.
\<close>

theorem pour_refused_no_mutation:
  "can_pour s from_index to_index = Inr False \<Longrightarrow> pour s from_index to_index = Inr (False, s)"
  by (simp add: pour_def)

theorem pour_refused_no_mutation_witness:
  "can_pour (TubeSolver [[1], [2]]) 0 1 = Inr False \<and>
   pour (TubeSolver [[1], [2]]) 0 1 = Inr (False, TubeSolver [[1], [2]])"
proof -
  have h: "can_pour (TubeSolver [[1], [2]]) 0 1 = Inr False"
    by (simp add: can_pour_def py_index_def TubeSolver_def)
  show ?thesis
    using h pour_refused_no_mutation [OF h] by simp
qed

section \<open>Frame of a successful pour\<close>

text \<open>
  Claim C10. When \<open>can_pour\<close> holds, \<open>pour\<close> returns true, the list of tubes keeps its
  length and differs at most at the two positions the indices \<open>f\<close> and \<open>t\<close> denote, the
  stored original configuration, \<open>total_colors\<close>, the count of required empty tubes, the
  capacity and the set of visited states are unchanged, and the move trace is the old
  one with the single pair \<open>(f, t)\<close> appended.
\<close>

theorem pour_frame:
  assumes cp: "can_pour s f t = Inr True"
  shows "\<exists>s' a b. pour s f t = Inr (True, s') \<and>
     py_index (tubes s) f = Some a \<and> py_index (tubes s) t = Some b \<and>
     length (tubes s') = length (tubes s) \<and>
     (\<forall>i < length (tubes s). i \<noteq> a \<longrightarrow> i \<noteq> b \<longrightarrow> tubes s' ! i = tubes s ! i) \<and>
     original_tubes s' = original_tubes s \<and> total_colors s' = total_colors s \<and>
     empty_tubes_count s' = empty_tubes_count s \<and> tube_capacity s' = tube_capacity s \<and>
     visited_states s' = visited_states s \<and>
     moves s' = moves s @ [(f, t)]"
proof -
  from cp obtain a b where a: "py_index (tubes s) f = Some a" and b: "py_index (tubes s) t = Some b"
    by (elim can_pour_TrueD)
  define s' where "s' = s\<lparr>tubes :=
            ((tubes s)[a := take (length (tubes s ! a) - pour_amount s a b) (tubes s ! a)])
              [b := ((tubes s)[a := take (length (tubes s ! a) - pour_amount s a b) (tubes s ! a)]) ! b
                     @ drop (length (tubes s ! a) - pour_amount s a b) (tubes s ! a)],
            moves := moves s @ [(f, t)]\<rparr>"
  have p: "pour s f t = Inr (True, s')"
    unfolding s'_def by (rule pour_success[OF cp a b])
  note q = pour_poured[OF p cp a b]
  have len: "length (tubes s') = length (tubes s)" unfolding q(2) by simp
  have other: "\<forall>i < length (tubes s). i \<noteq> a \<longrightarrow> i \<noteq> b \<longrightarrow> tubes s' ! i = tubes s ! i"
    unfolding q(2) by simp
  show ?thesis
    using p a b len other q(3-8) by blast
qed

theorem pour_frame_witness:
  "can_pour (TubeSolver [[1, 2, 2], [2], [3]]) 0 1 = Inr True \<and>
   (\<exists>s'. pour (TubeSolver [[1, 2, 2], [2], [3]]) 0 1 = Inr (True, s') \<and>
         tubes s' ! 2 = [3] \<and> moves s' = [(0, 1)] \<and> tube_capacity s' = 4 \<and>
         original_tubes s' = [[1, 2, 2], [2], [3]])"
proof -
  let ?s = "TubeSolver [[1, 2, 2], [2], [3]]"
  have cp: "can_pour ?s 0 1 = Inr True"
    by (simp add: can_pour_def py_index_def TubeSolver_def)
  have a: "py_index (tubes ?s) 0 = Some 0" and b: "py_index (tubes ?s) 1 = Some 1"
    by (simp_all add: py_index_def TubeSolver_def)
  from pour_frame[OF cp] a b
  obtain s' where p: "pour ?s 0 1 = Inr (True, s')"
    and fr: "\<forall>i < length (tubes ?s). i \<noteq> 0 \<longrightarrow> i \<noteq> 1 \<longrightarrow> tubes s' ! i = tubes ?s ! i"
    and o: "original_tubes s' = original_tubes ?s" "tube_capacity s' = tube_capacity ?s"
      "moves s' = moves ?s @ [(0, 1)]"
    by auto
  have "(2::nat) < length (tubes ?s)" by (simp add: TubeSolver_def)
  with fr have "tubes s' ! 2 = tubes ?s ! 2" by auto
  then have t2: "tubes s' ! 2 = [3]" by (simp add: TubeSolver_def)
  from o have "moves s' = [(0, 1)]" "tube_capacity s' = 4"
    "original_tubes s' = [[1, 2, 2], [2], [3]]"
    by (simp_all add: TubeSolver_def)
  with cp p t2 show ?thesis by blast
qed

section \<open>Solved detection\<close>

text \<open>
  Claim C3. For a state with a positive capacity whose two counters are the ones the
  constructor computes from the original configuration (every state the constructor and
  \<open>pour\<close> produce is such a state, see \<open>reachable_consistent\<close>), \<open>is_solved\<close> is true
  exactly when every tube is empty or full of one colour, the number of tubes full of one
  colour is the number of distinct colours of the original configuration, and the number
  of empty tubes is the number of empty tubes of the original configuration.
\<close>

theorem is_solved_exact:
  assumes "0 < tube_capacity s"
    and "total_colors s = count_total_colors (original_tubes s)"
    and "empty_tubes_count s = count_empty_tubes (original_tubes s)"
  shows "is_solved s \<longleftrightarrow>
    (\<forall>tb \<in> set (tubes s). tb = [] \<or> full_single s tb) \<and>
    length (filter (full_single s) (tubes s)) = card (\<Union>tb \<in> set (original_tubes s). set tb) \<and>
    length (filter (\<lambda>tb. tb = []) (tubes s)) = length (filter (\<lambda>tb. tb = []) (original_tubes s))"
  unfolding is_solved_def is_solved_loop_eq[OF assms(1)] assms(2,3)
    count_total_colors_card count_empty_tubes_def
  by simp

theorem is_solved_exact_witness:
  "0 < tube_capacity solved_example \<and>
   total_colors solved_example = count_total_colors (original_tubes solved_example) \<and>
   empty_tubes_count solved_example = count_empty_tubes (original_tubes solved_example) \<and>
   list_all (\<lambda>tb. tb = [] \<or> full_single solved_example tb) (tubes solved_example) \<and>
   is_solved solved_example \<and>
   \<not> is_solved (solved_example\<lparr>tubes := [[1, 1, 1, 1], [2, 2, 2, 2], [], []]\<rparr>) \<and>
   \<not> is_solved (solved_example\<lparr>tubes := [[1, 1, 1, 1], [], []]\<rparr>)"
proof -
  let ?s = solved_example
  have h: "0 < tube_capacity ?s" "total_colors ?s = count_total_colors (original_tubes ?s)"
    "empty_tubes_count ?s = count_empty_tubes (original_tubes ?s)"
    by (simp_all add: solved_example_def TubeSolver_def)
  have c: "card (\<Union>tb \<in> set (original_tubes ?s). set tb) = 2"
    by (simp add: solved_example_def TubeSolver_def card_insert_if)
  have fs: "full_single ?s [1, 1, 1, 1]" "full_single ?s [2, 2, 2, 2]" "\<not> full_single ?s []"
    by (simp_all add: full_single_def solved_example_def TubeSolver_def)
  have 1: "is_solved ?s"
    unfolding is_solved_exact[OF h]
    using fs c by (simp add: solved_example_def TubeSolver_def)
  let ?s2 = "?s\<lparr>tubes := [[1, 1, 1, 1], [2, 2, 2, 2], [], []]\<rparr>"
  have h2: "0 < tube_capacity ?s2" "total_colors ?s2 = count_total_colors (original_tubes ?s2)"
    "empty_tubes_count ?s2 = count_empty_tubes (original_tubes ?s2)"
    using h by simp_all
  have 2: "\<not> is_solved ?s2"
    unfolding is_solved_exact[OF h2]
    by (simp add: solved_example_def TubeSolver_def)
  let ?s3 = "?s\<lparr>tubes := [[1, 1, 1, 1], [], []]\<rparr>"
  have h3: "0 < tube_capacity ?s3" "total_colors ?s3 = count_total_colors (original_tubes ?s3)"
    "empty_tubes_count ?s3 = count_empty_tubes (original_tubes ?s3)"
    using h by simp_all
  have 3: "\<not> is_solved ?s3"
    unfolding is_solved_exact[OF h3]
    by (simp add: solved_example_def TubeSolver_def)
  have l: "list_all (\<lambda>tb. tb = [] \<or> full_single ?s tb) (tubes ?s)"
    using fs by (simp add: solved_example_def TubeSolver_def)
  from h l 1 2 3 show ?thesis by blast
qed

section \<open>The two-tube example\<close>

text \<open>
  Claim C9, as the specification states it, fails: after the pour the state is not
  solved. The constructor counts no empty tube in \<open>[[1], [1]]\<close>, so the required number
  of empty tubes is 0, while the state after the pour has one.
\<close>

theorem two_tubes_not_solved:
  "\<not> (\<exists>s'. pour two_tubes 0 1 = Inr (True, s') \<and> is_solved s')"
  by (simp add: two_tubes_pour)
    (simp add: is_solved_def two_tubes_def TubeSolver_def count_total_colors_def count_empty_tubes_def)

text \<open>
  Claim C9, amended. For the configuration \<open>[[1], [1]]\<close> with capacity 2 (one colour,
  zero required empty tubes), \<open>can_pour 0 1\<close> holds and \<open>pour 0 1\<close> succeeds leaving
  tube 0 empty and tube 1 equal to \<open>[1, 1]\<close>; \<open>is_solved\<close> then returns false, because
  the state has one empty tube and the required number is 0 (with a required number of
  1 the same state is solved).
\<close>

theorem two_tubes_example:
  "total_colors two_tubes = 1 \<and> empty_tubes_count two_tubes = 0 \<and>
   can_pour two_tubes 0 1 = Inr True \<and>
   (\<exists>s'. pour two_tubes 0 1 = Inr (True, s') \<and> tubes s' = [[], [1, 1]] \<and>
         \<not> is_solved s' \<and> is_solved (s'\<lparr>empty_tubes_count := 1\<rparr>))"
proof -
  let ?s' = "two_tubes\<lparr>tubes := [[], [1, 1]], moves := [(0, 1)]\<rparr>"
  have "total_colors two_tubes = 1" "empty_tubes_count two_tubes = 0"
    by (simp_all add: two_tubes_def TubeSolver_def count_total_colors_def count_empty_tubes_def)
  moreover have "can_pour two_tubes 0 1 = Inr True"
    by (simp add: two_tubes_def can_pour_def py_index_def TubeSolver_def)
  moreover have "tubes ?s' = [[], [1, 1]]" by simp
  moreover have "\<not> is_solved ?s'" "is_solved (?s'\<lparr>empty_tubes_count := 1\<rparr>)"
    by (simp_all add: is_solved_def two_tubes_def TubeSolver_def count_total_colors_def
        count_empty_tubes_def)
  ultimately show ?thesis using two_tubes_pour by blast
qed

section \<open>Fingerprint\<close>

text \<open>
  Claim C5. Two states whose tube lists are permutations of each other (in particular
  two states that differ by which index an empty tube, or one of several equal tubes,
  occupies) have the same fingerprint. The fingerprint is the join, with the separator
  \<open>|\<close>, of a list that is sorted and holds exactly the serialisations of the tubes.
\<close>

theorem fingerprint_canonical:
  assumes "mset (tubes s') = mset (tubes s)"
  shows "get_state_hash s' = get_state_hash s \<and>
    (\<exists>parts. sorted parts \<and>
       mset parts = image_mset (\<lambda>tube. join '','' (map str_int tube)) (mset (tubes s)) \<and>
       get_state_hash s = join ''|'' parts)"
proof -
  let ?ser = "\<lambda>tube. join '','' (map str_int tube)"
  have "mset (map ?ser (tubes s')) = mset (map ?ser (tubes s))"
    using assms by (metis mset_map)
  then have "sort (map ?ser (tubes s')) = sort (map ?ser (tubes s))"
    by (rule sort_mset_eq)
  then have 1: "get_state_hash s' = get_state_hash s"
    by (simp add: get_state_hash_def)
  have "sorted (sort (map ?ser (tubes s))) \<and>
       mset (sort (map ?ser (tubes s))) = image_mset ?ser (mset (tubes s)) \<and>
       get_state_hash s = join ''|'' (sort (map ?ser (tubes s)))"
    by (simp add: get_state_hash_def)
  with 1 show ?thesis by blast
qed

theorem fingerprint_canonical_witness:
  "mset (tubes (TubeSolver [[], [3, 10], [1, 2]])) = mset (tubes (TubeSolver [[1, 2], [], [3, 10]])) \<and>
   get_state_hash (TubeSolver [[], [3, 10], [1, 2]]) = ''|1,2|3,10''"
proof -
  have m: "mset (tubes (TubeSolver [[], [3, 10], [1, 2]])) = mset (tubes (TubeSolver [[1, 2], [], [3, 10]]))"
    by (simp add: TubeSolver_def)
  from fingerprint_canonical[OF m] have
    "get_state_hash (TubeSolver [[], [3, 10], [1, 2]]) = get_state_hash (TubeSolver [[1, 2], [], [3, 10]])"
    by blast
  with m hash_example show ?thesis by simp
qed

section \<open>The backup move\<close>

text \<open>
  Claim C8. In a state whose capacity is not 1 (the constructor sets 4),
  \<open>find_backup_move\<close> returns no move exactly when no pair of tube indices is a legal
  pour. When a legal pour exists it returns a legal pour, and that pour is either one
  the first pass looks for (into a tube one unit short of full, all of whose units have
  the colour on top of the source) or, when no such pour exists at all, the first legal
  pour of the scan of all pairs in index order.
\<close>

theorem find_backup_move_exhaustive:
  assumes cap: "tube_capacity s \<noteq> 1"
  shows "(find_backup_move s = Inr None \<longleftrightarrow> \<not> (\<exists>f t. legal_pour s f t)) \<and>
    ((\<exists>f t. legal_pour s f t) \<longrightarrow>
       (\<exists>f t. find_backup_move s = Inr (Some (f, t)) \<and> legal_pour s f t \<and>
          (almost_complete_pour s f t \<or>
           (\<not> (\<exists>f' t'. almost_complete_pour s f' t') \<and> first_legal_pour s f t))))"
proof -
  let ?R = "range_py (length (tubes s))"
  have es: "\<forall>(to, tube) \<in> set (enumerate_py (tubes s)). valid_index s to \<and> tube = tubes s ! nat to"
    by (auto simp: set_enumerate_py valid_index_def)
  from backup_first_pass_char[OF cap es] obtain r1 where r1:
      "backup_first_pass s (enumerate_py (tubes s)) = Inr r1"
      "r1 = None \<longrightarrow> (\<forall>(to, tube) \<in> set (enumerate_py (tubes s)). \<forall>f. \<not> almost_complete_pour s f to)"
      "\<forall>f t. r1 = Some (f, t) \<longrightarrow> almost_complete_pour s f t"
    by blast
  have vR: "\<forall>f \<in> set ?R. valid_index s f" by (simp add: valid_range)
  from scan_from_char[OF vR sorted_range_py] obtain r2 where r2:
      "scan_from s ?R = Inr r2"
      "r2 = None \<longrightarrow> (\<forall>f \<in> set ?R. \<forall>t \<in> set ?R. can_pour s f t \<noteq> Inr True)"
      "\<forall>f t. r2 = Some (f, t) \<longrightarrow> f \<in> set ?R \<and> t \<in> set ?R \<and> can_pour s f t = Inr True \<and>
        (\<forall>f' \<in> set ?R. \<forall>t' \<in> set ?R.
           can_pour s f' t' = Inr True \<longrightarrow> f < f' \<or> (f = f' \<and> t \<le> t'))"
    by blast
  show ?thesis
  proof (cases r1)
    case (Some m)
    obtain f t where m: "m = (f, t)" by (cases m)
    have acp: "almost_complete_pour s f t" using r1(3) Some m by simp
    then have lp: "legal_pour s f t" by (simp add: almost_complete_pour_def)
    have "find_backup_move s = Inr (Some (f, t))"
      using r1(1) Some m by (simp add: find_backup_move_def)
    then show ?thesis using acp lp by auto
  next
    case None
    have noacp: "\<not> (\<exists>f' t'. almost_complete_pour s f' t')"
    proof
      assume "\<exists>f' t'. almost_complete_pour s f' t'"
      then obtain f' t' where a: "almost_complete_pour s f' t'" by blast
      from almost_complete_pourD(2)[OF a]
      have "(t', tubes s ! nat t') \<in> set (enumerate_py (tubes s))"
        by (simp add: set_enumerate_py valid_index_def)
      with r1(2) None a show False by blast
    qed
    have res: "find_backup_move s = Inr r2"
      using r1(1) None r2(1) by (simp add: find_backup_move_def)
    show ?thesis
    proof (cases r2)
      case n2: None
      then have "\<not> (\<exists>f t. legal_pour s f t)"
        using r2(2) by (auto simp: legal_pour_def valid_range)
      then show ?thesis using res n2 by simp
    next
      case (Some m)
      obtain f t where m: "m = (f, t)" by (cases m)
      from r2(3) Some m have ft: "f \<in> set ?R" "t \<in> set ?R" "can_pour s f t = Inr True"
        "\<forall>f' \<in> set ?R. \<forall>t' \<in> set ?R.
           can_pour s f' t' = Inr True \<longrightarrow> f < f' \<or> (f = f' \<and> t \<le> t')"
        by simp_all
      have lp: "legal_pour s f t" using ft(1-3) by (simp add: legal_pour_def valid_range)
      have flp: "first_legal_pour s f t"
        unfolding first_legal_pour_def using lp ft(4) by (simp add: legal_pour_def)
      have "find_backup_move s = Inr (Some (f, t))" using res Some m by simp
      then show ?thesis using lp flp noacp by auto
    qed
  qed
qed

theorem find_backup_move_exhaustive_witness:
  "tube_capacity backup_example \<noteq> 1 \<and> legal_pour backup_example 0 1 \<and>
   find_backup_move backup_example \<noteq> Inr None \<and>
   find_backup_move backup_example = Inr (Some (0, 1)) \<and>
   almost_complete_pour backup_example 0 1"
proof -
  have cap: "tube_capacity backup_example \<noteq> 1"
    by (simp add: backup_example_def TubeSolver_def)
  from find_backup_move_exhaustive[OF cap] backup_example_legal
  have "find_backup_move backup_example \<noteq> Inr None" by blast
  with cap backup_example_legal backup_example_move backup_example_almost
  show ?thesis by blast
qed

section \<open>The stuck outcome of solve\<close>

text \<open>
  Claim C6. For an initial configuration that is not solved and in which no pair of tube
  indices is a legal pour, \<open>solve\<close> returns (it neither runs forever nor raises), for
  every source of random numbers and every iteration order of the colour set; the
  verdict is false, the move trace is empty and the tubes are the initial ones.
\<close>

theorem solve_stuck:
  assumes "\<not> is_solved (TubeSolver ts)" and "\<not> (\<exists>f t. legal_pour (TubeSolver ts) f t)"
  shows "\<exists>s'. solve rnd iter (TubeSolver ts) = Some (Inr (False, s')) \<and> moves s' = [] \<and>
               tubes s' = ts"
proof -
  let ?s = "TubeSolver ts"
  have r: "?s\<lparr>tubes := original_tubes ?s, moves := [], visited_states := {}\<rparr> = ?s"
    by (simp add: TubeSolver_def)
  have cap: "tube_capacity ?s \<noteq> 1" by (simp add: TubeSolver_def)
  have o: "original_tubes ?s = ts" by (simp add: TubeSolver_def)
  from solve_stuck_general[of ?s rnd iter, unfolded r, OF cap assms]
  show ?thesis unfolding o .
qed

theorem solve_stuck_witness:
  "\<not> is_solved stuck_example \<and> \<not> (\<exists>f t. legal_pour stuck_example f t) \<and>
   (\<exists>s'. solve (\<lambda>k. 0) (\<lambda>tbs. [1, 2, 3]) stuck_example = Some (Inr (False, s')) \<and>
         moves s' = [] \<and> tubes s' = [[1, 2, 1, 2], [2, 3, 2, 3], [3, 1, 3, 1]])"
  using stuck_example_unsolved stuck_example_no_legal
    solve_stuck[of "[[1, 2, 1, 2], [2, 3, 2, 3], [3, 1, 3, 1]]" "\<lambda>k. 0" "\<lambda>tbs. [1, 2, 3]"]
  unfolding stuck_example_def by blast

section \<open>Target colour\<close>

text \<open>
  Claim C7. For every state and every order in which the set of colours is iterated:
  the entries of the analysis that \<open>find_target_color\<close> does not skip are exactly the
  collectible colours (unit count equal to the capacity, at least one topmost
  occurrence), each with the score ten times its maximum depth plus five per topmost
  occurrence when more than one is topmost; when a collectible colour exists the
  function returns a collectible colour whose score is highest, and when none exists it
  returns no colour. (The colours may be any ints; positive ones are a special case.)
\<close>

theorem find_target_color_best:
  assumes ord: "colour_order s all_colors"
  shows "(\<forall>c d. (c, d) \<in> set (analyze_colors all_colors s) \<and> is_collectible d \<longrightarrow>
            collectible s c \<and> score_of d = target_score s c) \<and>
         (\<forall>c. collectible s c \<longrightarrow>
            (\<exists>d. (c, d) \<in> set (analyze_colors all_colors s) \<and> is_collectible d)) \<and>
         ((\<exists>c. collectible s c) \<longrightarrow>
            (\<exists>c. find_target_color all_colors s = Some c \<and> collectible s c \<and>
                 (\<forall>c'. collectible s c' \<longrightarrow> target_score s c' \<le> target_score s c))) \<and>
         (\<not> (\<exists>c. collectible s c) \<longrightarrow> find_target_color all_colors s = None)"
proof -
  let ?al = "analyze_colors all_colors s"
  have p1: "collectible s c \<and> score_of d = target_score s c \<and> 0 \<le> score_of d"
    if "(c, d) \<in> set ?al" "is_collectible d" for c d
  proof -
    from that(1) have m: "(c, d) \<in> set (analyze_color s c)" by (simp add: analyze_colors_mem)
    from analyze_color_cases(2,3)[OF m] that(2) have "collectible s c"
      by (simp add: collectible_def)
    with analyze_color_cases(4,5)[OF m that(2)] show ?thesis by simp
  qed
  have p2: "\<exists>d. (c, d) \<in> set ?al \<and> is_collectible d" if col: "collectible s c" for c
  proof -
    have "c \<in> set all_colors" by (rule collectible_in_order[OF ord col])
    moreover from col have "int (unit_count s c) = tube_capacity s" by (simp add: collectible_def)
    from analyze_color_present[OF this] obtain d where d: "(c, d) \<in> set (analyze_color s c)"
      by blast
    moreover have "is_collectible d"
      using analyze_color_cases(3)[OF d] col by (simp add: collectible_def)
    ultimately show ?thesis by (auto simp: analyze_colors_mem)
  qed
  have p3: "\<exists>c. find_target_color all_colors s = Some c \<and> collectible s c \<and>
                 (\<forall>c'. collectible s c' \<longrightarrow> target_score s c' \<le> target_score s c)"
    if "\<exists>c. collectible s c"
  proof -
    from that p2 obtain c0 d0 where "(c0, d0) \<in> set ?al" "is_collectible d0" by blast
    with p1 have "\<exists>(c, d) \<in> set ?al. is_collectible d \<and> - 1 < score_of d" by fastforce
    from find_target_loop_some[OF this, of None] obtain c d where cd: "(c, d) \<in> set ?al"
        "is_collectible d" "find_target_loop ?al None (- 1) = Some c"
        "\<forall>(c', d') \<in> set ?al. is_collectible d' \<longrightarrow> score_of d' \<le> score_of d"
      by blast
    have "target_score s c' \<le> target_score s c" if "collectible s c'" for c'
    proof -
      from p2[OF that] obtain d' where d': "(c', d') \<in> set ?al" "is_collectible d'" by blast
      with cd(4) have "score_of d' \<le> score_of d" by auto
      with p1[OF d'] p1[OF cd(1,2)] show ?thesis by simp
    qed
    with cd(3) p1[OF cd(1,2)] show ?thesis by (auto simp: find_target_color_def)
  qed
  have p4: "find_target_color all_colors s = None" if "\<not> (\<exists>c. collectible s c)"
  proof -
    from that p1 have "\<forall>(c, d) \<in> set ?al. is_collectible d \<longrightarrow> score_of d \<le> - 1" by blast
    from find_target_loop_none[OF this] show ?thesis by (simp add: find_target_color_def)
  qed
  from p1 p2 p3 p4 show ?thesis by blast
qed

theorem find_target_color_best_witness:
  "colour_order target_example [2, 1] \<and> collectible target_example 1 \<and>
   find_target_color [2, 1] target_example \<noteq> None \<and>
   find_target_color [2, 1] target_example = Some 1 \<and>
   target_score target_example 1 = 40 \<and> target_score target_example 2 = 20"
proof -
  from find_target_color_best[OF target_example_order] target_example_collectible
  have "\<exists>c. find_target_color [2, 1] target_example = Some c" by blast
  then have "find_target_color [2, 1] target_example \<noteq> None" by auto
  with target_example_order target_example_collectible target_example_value target_example_scores
  show ?thesis by blast
qed

end
